theory Spec2Isabelle
  imports Complex_Main "HOL-Library.Sublist" "HOL-Library.Multiset" "HOL-Library.Log_Nat"
begin

section \<open>JavaScript values\<close>

text \<open>
  The log entries are decoded JSON. The fields the code only tests for truthiness, compares
  with \<open>===\<close>, converts to a string or calls a string method on are modelled as scalar
  JSON values; \<open>JNum n\<close> is the number whose value is the integer \<open>n\<close> (a safe integer,
  printed by \<open>String(n)\<close> as its decimal numeral). Strings are byte strings; every
  pattern of the code is ASCII, so a match on bytes is a match on UTF-16 code units.
\<close>

datatype jsval = JUndefined | JNull | JBool bool | JNum int | JStr string

datatype error = TypeError

text \<open>ToBoolean: what \<open>!v\<close>, \<open>v && ...\<close>, \<open>v || ...\<close> and \<open>if (v)\<close> test.\<close>

fun truthy :: "jsval \<Rightarrow> bool" where
  "truthy JUndefined = False"
| "truthy JNull = False"
| "truthy (JBool b) = b"
| "truthy (JNum n) = (n \<noteq> 0)"
| "truthy (JStr s) = (s \<noteq> [])"

text \<open>\<open>a || b\<close>\<close>

definition js_or :: "jsval \<Rightarrow> jsval \<Rightarrow> jsval" where
  "js_or a b = (if truthy a then a else b)"

fun typeof :: "jsval \<Rightarrow> string" where
  "typeof JUndefined = ''undefined''"
| "typeof JNull = ''object''"
| "typeof (JBool b) = ''boolean''"
| "typeof (JNum n) = ''number''"
| "typeof (JStr s) = ''string''"

definition digit :: "nat \<Rightarrow> char" where
  "digit d = ''0123456789'' ! d"

fun dec :: "nat \<Rightarrow> string" where
  "dec n = (if n < 10 then [digit n] else dec (n div 10) @ [digit (n mod 10)])"

declare dec.simps [simp del]

definition dec_int :: "int \<Rightarrow> string" where
  "dec_int i = (if i < 0 then ''-'' @ dec (nat (- i)) else dec (nat i))"

text \<open>ToString, as a template literal and a property key apply it.\<close>

fun ToString :: "jsval \<Rightarrow> string" where
  "ToString JUndefined = ''undefined''"
| "ToString JNull = ''null''"
| "ToString (JBool b) = (if b then ''true'' else ''false'')"
| "ToString (JNum n) = dec_int n"
| "ToString (JStr s) = s"

subsection \<open>Doubles\<close>

text \<open>
  A JavaScript number is an IEEE 754 binary64 value, and \<open>+\<close>, \<open>*\<close> and \<open>/\<close> return the
  exact result rounded to the nearest such value, ties to the even significand. A finite
  double is modelled by the rational it denotes. \<open>ilog2 r\<close> is the binary exponent of a
  positive rational, the \<open>k\<close> with \<open>2^k \<le> r < 2^(k+1)\<close>; \<open>round53\<close> rounds a rational to
  the nearest one with a significand of 53 bits. The exponent is not bounded: overflow to
  \<open>Infinity\<close> and the subnormal numbers are not modelled, and none is reached from array
  lengths (below \<open>2^32\<close>), counters and the time values of dates (at most \<open>8.64 * 10^15\<close>
  in magnitude). Integers below \<open>2^53\<close> in magnitude are doubles, and their sums and
  differences below \<open>2^53\<close> are exact: counters and array lengths are natural numbers, and
  the difference of two time values is an integer (two dates less than \<open>2^53\<close> milliseconds,
  285 000 years, apart).
\<close>

definition ilog2 :: "rat \<Rightarrow> int" where
  "ilog2 r = (if 1 \<le> r then bitlen \<lfloor>r\<rfloor> - 1 else - bitlen (\<lceil>1 / r\<rceil> - 1))"

definition round_half_even :: "rat \<Rightarrow> int" where
  "round_half_even x =
     (let f = \<lfloor>x\<rfloor>; d = x - of_int f
      in if d < 1 / 2 then f else if 1 / 2 < d then f + 1 else if even f then f else f + 1)"

definition round53 :: "rat \<Rightarrow> rat" where
  "round53 r =
     (if r = 0 then 0
      else let e = ilog2 \<bar>r\<bar> - 52
           in sgn r * of_int (round_half_even (\<bar>r\<bar> / 2 powi e)) * 2 powi e)"

text \<open>A number the code computes: a finite double, \<open>NaN\<close> or \<open>Infinity\<close>.\<close>

datatype number = Fin rat | NaN | Infinity

text \<open>\<open>x / y\<close> for two array lengths or counters (integers, so exact doubles).\<close>

definition js_div :: "nat \<Rightarrow> nat \<Rightarrow> number" where
  "js_div x y = (if y = 0 then (if x = 0 then NaN else Infinity)
                 else Fin (round53 (of_nat x / of_nat y)))"

text \<open>\<open>x * c\<close> for a positive constant \<open>c\<close> that is a double.\<close>

fun js_times :: "number \<Rightarrow> rat \<Rightarrow> number" where
  "js_times (Fin r) c = Fin (round53 (r * c))"
| "js_times NaN c = NaN"
| "js_times Infinity c = Infinity"

text \<open>
  \<open>x.toFixed(2)\<close>, for a magnitude below \<open>10^21\<close>: the integer \<open>n\<close> with \<open>n / 100\<close>
  nearest to the exact value of the double \<open>x\<close> (the larger one on a tie), printed with
  two decimals.
\<close>

definition fixed2 :: "rat \<Rightarrow> string" where
  "fixed2 r = (let n = nat \<lfloor>r * 100 + 1 / 2\<rfloor>
               in dec (n div 100) @ ''.'' @ [digit (n mod 100 div 10), digit (n mod 10)])"

fun toFixed2 :: "number \<Rightarrow> string" where
  "toFixed2 (Fin r) = (if r < 0 then ''-'' @ fixed2 (- r) else fixed2 r)"
| "toFixed2 NaN = ''NaN''"
| "toFixed2 Infinity = ''Infinity''"

section \<open>Strings and patterns\<close>

text \<open>
  \<open>toLowerCase\<close> on the ASCII letters; the letters beyond ASCII are left as they are
  (the few that JavaScript maps to an ASCII letter, such as the Kelvin sign, are not
  modelled). With the flag \<open>i\<close> a regular expression never equates a character beyond
  ASCII with an ASCII one, so the matching of the ASCII patterns of the code is exact.
\<close>

definition lower :: "char \<Rightarrow> char" where
  "lower c = (case map_of (zip ''ABCDEFGHIJKLMNOPQRSTUVWXYZ'' ''abcdefghijklmnopqrstuvwxyz'') c of
                Some l \<Rightarrow> l | None \<Rightarrow> c)"

definition toLowerCase :: "string \<Rightarrow> string" where
  "toLowerCase s = map lower s"

text \<open>\<open>s.includes(p)\<close>: \<open>p\<close> occurs in \<open>s\<close> as a contiguous substring.\<close>

fun str_includes :: "string \<Rightarrow> string \<Rightarrow> bool" where
  "str_includes [] p = (p = [])"
| "str_includes (c # cs) p = (prefix p (c # cs) \<or> str_includes cs p)"

text \<open>\<open>s.startsWith(p)\<close>\<close>

definition startsWith :: "string \<Rightarrow> string \<Rightarrow> bool" where
  "startsWith s p = prefix p s"

text \<open>
  Every regular expression of the bot catalog is a literal with the flag \<open>i\<close> and without
  the flag \<open>g\<close> (\<open>/googlebot/i\<close>, \<open>/archive\.org_bot/i\<close>, \<open>/java\//i\<close>): \<open>pattern.test(s)\<close>
  holds when the literal occurs in \<open>s\<close>, letter case ignored, and keeps no state.
  A pattern is modelled by its literal text.
\<close>

definition regex_test :: "string \<Rightarrow> string \<Rightarrow> bool" where
  "regex_test pattern s = str_includes (toLowerCase s) (toLowerCase pattern)"

section \<open>BotFilter\<close>

record SuspiciousPatterns =
  rapidRequests :: rat
  shortSessionDuration :: rat
  noJavaScript :: bool
  perfectLinear :: bool

record BotFilter =
  botPatterns :: "string list"
  botIPRanges :: "string list"
  suspiciousPatterns :: SuspiciousPatterns

text \<open>The constructor.\<close>

definition BotFilter_new :: BotFilter where
  "BotFilter_new = \<lparr>
     botPatterns = [
       ''googlebot'', ''bingbot'', ''slurp'', ''duckduckbot'', ''baiduspider'', ''yandexbot'',
       ''sogou'', ''exabot'',
       ''facebookexternalhit'', ''twitterbot'', ''linkedinbot'', ''pinterest'', ''slackbot'',
       ''telegrambot'', ''whatsapp'',
       ''ahrefsbot'', ''semrushbot'', ''majestic'', ''mj12bot'', ''dotbot'', ''rogerbot'',
       ''screaming frog'',
       ''archive.org_bot'', ''ia_archiver'', ''wayback'',
       ''bot'', ''crawler'', ''spider'', ''scraper'', ''curl'', ''wget'', ''python-requests'',
       ''java/'', ''go-http-client'', ''axios'', ''node-fetch'',
       ''pingdom'', ''uptimerobot'', ''newrelic'', ''datadog'', ''site24x7'',
       ''nikto'', ''nessus'', ''qualys'', ''acunetix'', ''nmap'',
       ''cloudflare'', ''akamai'', ''fastly'',
       ''headlesschrome'', ''phantomjs'', ''selenium'', ''puppeteer'', ''playwright''],
     botIPRanges = [''66.249.64.0/19'', ''66.102.0.0/20'', ''40.77.167.0/24'',
       ''207.46.13.0/24'', ''35.0.0.0/8'', ''52.0.0.0/8''],
     suspiciousPatterns = \<lparr>rapidRequests = 100, shortSessionDuration = 2000,
       noJavaScript = True, perfectLinear = True\<rparr>\<rparr>"

text \<open>
  The behavioural summary of a session. Its counters and rates are numbers or absent
  (\<open>None\<close> is \<open>undefined\<close>, which compares false with every number); the \<open>headers\<close>
  object may be absent too.
\<close>

record Headers =
  acceptLanguage :: jsval
  referer :: jsval

record Session =
  requestsPerMinute :: "rat option"
  duration :: "rat option"
  hasJavaScript :: jsval
  accessPattern :: jsval
  perfectTiming :: jsval
  errorRate :: "rat option"
  requestCount :: "rat option"
  headers :: "Headers option"

text \<open>\<open>x > c\<close>, \<open>x < c\<close> and \<open>x === c\<close> for a field \<open>x\<close> that is a number or absent.\<close>

definition js_gt :: "rat option \<Rightarrow> rat \<Rightarrow> bool" where
  "js_gt x c = (case x of None \<Rightarrow> False | Some r \<Rightarrow> r > c)"

definition js_lt :: "rat option \<Rightarrow> rat \<Rightarrow> bool" where
  "js_lt x c = (case x of None \<Rightarrow> False | Some r \<Rightarrow> r < c)"

definition js_eq :: "rat option \<Rightarrow> rat \<Rightarrow> bool" where
  "js_eq x c = (x = Some c)"

text \<open>
  The result \<open>{isBot, confidence, reasons}\<close> of \<open>analyzeBehavior\<close> and the verdict
  \<open>{isBot, confidence, reasons, method}\<close> of \<open>isBot\<close>; the field \<open>isBot\<close> is \<open>is_bot\<close>
  here, the name \<open>isBot\<close> being the method's, and a \<open>method\<close> that is \<open>null\<close> is \<open>None\<close>.
\<close>

record Indicators =
  is_bot :: bool
  confidence :: nat
  reasons :: "string list"

record Detection = Indicators +
  "method" :: "string option"

record Request =
  userAgent :: jsval
  ip :: jsval
  session :: "Session option"

definition isBotUserAgent :: "BotFilter \<Rightarrow> jsval \<Rightarrow> bool" where
  "isBotUserAgent this ua =
     (if \<not> truthy ua \<or> typeof ua \<noteq> ''string'' then True
      else list_ex (\<lambda>pattern. regex_test pattern (ToString ua)) (botPatterns this))"

definition knownBotIPs :: "string list" where
  "knownBotIPs = [''66.249.'', ''40.77.'', ''157.55.'', ''207.46.'']"

text \<open>\<open>ip.startsWith\<close> is a function only when \<open>ip\<close> is a string.\<close>

definition isBotIP :: "jsval \<Rightarrow> error + bool" where
  "isBotIP ipv =
     (if \<not> truthy ipv then Inr False
      else case ipv of
             JStr s \<Rightarrow> Inr (list_ex (\<lambda>p. startsWith s p) knownBotIPs)
           | _ \<Rightarrow> Inl TypeError)"

text \<open>One \<open>if (c) { confidence += w; reasons.push(r) }\<close> of \<open>analyzeBehavior\<close>.\<close>

definition indicate :: "bool \<Rightarrow> nat \<Rightarrow> string \<Rightarrow> Indicators \<Rightarrow> Indicators" where
  "indicate c w r ind =
     (if c then ind\<lparr>confidence := confidence ind + w, reasons := reasons ind @ [r]\<rparr> else ind)"

text \<open>Reading \<open>session.headers.acceptLanguage\<close> throws when \<open>session.headers\<close> is absent.\<close>

definition analyzeBehavior :: "BotFilter \<Rightarrow> Session \<Rightarrow> error + Indicators" where
  "analyzeBehavior this s =
     (let i0 = \<lparr>is_bot = False, confidence = 0, reasons = []\<rparr>;
          i1 = indicate (js_gt (requestsPerMinute s) (rapidRequests (suspiciousPatterns this)))
                 30 ''Excessive request rate'' i0;
          i2 = indicate (js_lt (duration s) (shortSessionDuration (suspiciousPatterns this)))
                 20 ''Suspiciously short session'' i1;
          i3 = indicate (\<not> truthy (hasJavaScript s))
                 25 ''No JavaScript execution detected'' i2;
          i4 = indicate (accessPattern s = JStr ''sequential'' \<and> truthy (perfectTiming s))
                 25 ''Perfect sequential access pattern'' i3;
          i5 = indicate (js_eq (errorRate s) 0 \<and> js_gt (requestCount s) 50)
                 15 ''Zero error rate with high request count'' i4
      in case headers s of
           None \<Rightarrow> Inl TypeError
         | Some h \<Rightarrow>
             (let i6 = indicate (\<not> truthy (acceptLanguage h))
                        10 ''Missing Accept-Language header'' i5;
                  i7 = indicate (\<not> truthy (Headers.referer h) \<and> js_gt (requestCount s) 5)
                        10 ''Missing Referer header on multiple requests'' i6
              in Inr (i7\<lparr>is_bot := (confidence i7 \<ge> 50)\<rparr>)))"

text \<open>The behavioural branch of \<open>isBot\<close>, reached when neither earlier check returned.\<close>

definition isBot_behavior :: "BotFilter \<Rightarrow> Session option \<Rightarrow> Detection \<Rightarrow> error + Detection" where
  "isBot_behavior this so result =
     (case so of
        None \<Rightarrow> Inr result
      | Some s \<Rightarrow>
          (case analyzeBehavior this s of
             Inl e \<Rightarrow> Inl e
           | Inr behaviorAnalysis \<Rightarrow>
               if is_bot behaviorAnalysis
               then Inr (result\<lparr>is_bot := True, confidence := confidence behaviorAnalysis,
                          method := Some ''behavioral'', reasons := reasons behaviorAnalysis\<rparr>)
               else Inr result))"

definition isBot :: "BotFilter \<Rightarrow> 'a Request_scheme \<Rightarrow> error + Detection" where
  "isBot this request =
     (let result = \<lparr>is_bot = False, confidence = 0, reasons = [], method = None\<rparr>
      in if isBotUserAgent this (userAgent request)
         then Inr (result\<lparr>is_bot := True, confidence := 95, method := Some ''user-agent'',
                     reasons := reasons result @ [''Bot user-agent detected'']\<rparr>)
         else if \<not> truthy (ip request) then isBot_behavior this (session request) result
         else case isBotIP (ip request) of
                Inl e \<Rightarrow> Inl e
              | Inr True \<Rightarrow>
                  Inr (result\<lparr>is_bot := True, confidence := 85, method := Some ''ip-range'',
                        reasons := reasons result @ [''IP from known bot range'']\<rparr>)
              | Inr False \<Rightarrow> isBot_behavior this (session request) result)"

text \<open>
  A visit \<open>{timestamp, path}\<close> of \<open>_calculateSessions\<close> and a row
  \<open>{referrer, visits, uniqueVisitors}\<close> of \<open>_calculateReferrers\<close>.
\<close>

record Visit =
  timestamp :: int
  path :: jsval

record ReferrerRow =
  referrer :: string
  visits :: nat
  uniqueVisitors :: nat

text \<open>
  A log entry. \<open>timestamp\<close> is the instant \<open>new Date(entry.timestamp).getTime()\<close> in
  milliseconds, for an entry whose timestamp denotes a date (an entry whose timestamp
  does not is outside this model). The fields \<open>userAgent\<close>, \<open>ip\<close> and \<open>session\<close> are
  the ones \<open>filterLogs\<close> copies into the request it hands to \<open>isBot\<close>, so the entry
  extends the request.
\<close>

record LogEntry = Request +
  timestamp :: int
  path :: jsval
  url :: jsval
  referer :: jsval
  referrer :: jsval
  country :: jsval
  city :: jsval

text \<open>\<open>{...entry, botDetection: detection}\<close>\<close>

record BotLogEntry = LogEntry +
  botDetection :: Detection

record FilterStats =
  botPercentage :: jsval
  detectionMethods :: "(string \<times> nat) list"

record FilterResults =
  total :: nat
  legitimate :: "LogEntry list"
  bots :: "BotLogEntry list"
  stats :: FilterStats

text \<open>\<open>counts[key] = (counts[key] || 0) + 1\<close> on an object used as a dictionary.\<close>

fun increment :: "string \<Rightarrow> (string \<times> nat) list \<Rightarrow> (string \<times> nat) list" where
  "increment key [] = [(key, 1)]"
| "increment key ((k, n) # kvs) =
     (if k = key then (k, n + 1) # kvs else (k, n) # increment key kvs)"

text \<open>\<open>detection.method || 'unknown'\<close>\<close>

definition method_or_unknown :: "Detection \<Rightarrow> string" where
  "method_or_unknown detection =
     (case method detection of None \<Rightarrow> ''unknown'' | Some m \<Rightarrow> if m = [] then ''unknown'' else m)"

text \<open>The call of \<open>isBot\<close> on one entry.\<close>

definition detect :: "BotFilter \<Rightarrow> LogEntry \<Rightarrow> error + Detection" where
  "detect this entry =
     isBot this \<lparr>userAgent = userAgent entry, ip = ip entry, session = session entry\<rparr>"

text \<open>The \<open>forEach\<close> of \<open>filterLogs\<close>; an exception of \<open>isBot\<close> ends it.\<close>

fun filterLogs_forEach :: "BotFilter \<Rightarrow> LogEntry list \<Rightarrow> FilterResults \<Rightarrow> error + FilterResults" where
  "filterLogs_forEach this [] results = Inr results"
| "filterLogs_forEach this (entry # rest) results =
     (case detect this entry of
        Inl e \<Rightarrow> Inl e
      | Inr detection \<Rightarrow>
          if is_bot detection
          then filterLogs_forEach this rest
                 (results\<lparr>bots := bots results @ [LogEntry.extend entry (BotLogEntry.fields detection)],
                    stats := (stats results)\<lparr>detectionMethods :=
                      increment (method_or_unknown detection) (detectionMethods (stats results))\<rparr>\<rparr>)
          else filterLogs_forEach this rest
                 (results\<lparr>legitimate := legitimate results @ [entry]\<rparr>))"

text \<open>The object \<open>results\<close> before the \<open>forEach\<close>.\<close>

definition initial_results :: "LogEntry list \<Rightarrow> FilterResults" where
  "initial_results logEntries =
     \<lparr>total = length logEntries, legitimate = [], bots = [],
      stats = \<lparr>botPercentage = JNum 0, detectionMethods = []\<rparr>\<rparr>"

definition filterLogs :: "BotFilter \<Rightarrow> LogEntry list \<Rightarrow> error + FilterResults" where
  "filterLogs this logEntries =
     (case filterLogs_forEach this logEntries (initial_results logEntries) of
        Inl e \<Rightarrow> Inl e
      | Inr results \<Rightarrow>
          Inr (results\<lparr>stats := (stats results)\<lparr>botPercentage :=
                 JStr (toFixed2 (js_times (js_div (length (bots results)) (total results)) 100))\<rparr>\<rparr>))"

text \<open>Whether \<open>isBot\<close> returns a verdict for the entry, and the verdict is "bot".\<close>

definition flagged :: "BotFilter \<Rightarrow> LogEntry \<Rightarrow> bool" where
  "flagged this entry = (case detect this entry of Inl e \<Rightarrow> False | Inr d \<Rightarrow> is_bot d)"

definition returns :: "error + 'a \<Rightarrow> bool" where
  "returns r = (case r of Inl e \<Rightarrow> False | Inr v \<Rightarrow> True)"

section \<open>AnalyticsReconstructor\<close>

record AnalyticsReconstructor =
  botFilter :: "BotFilter option"
  sessionTimeout :: int

text \<open>The constructor; \<open>botFilter\<close> may be left out.\<close>

definition AnalyticsReconstructor_new :: "BotFilter option \<Rightarrow> AnalyticsReconstructor" where
  "AnalyticsReconstructor_new bf = \<lparr>botFilter = bf, sessionTimeout = 30 * 60 * 1000\<rparr>"

text \<open>
  \<open>_createFingerprint\<close>. The digest \<open>crypto.createHash('md5').update(s).digest('hex')\<close>
  is a function of the string \<open>s\<close>; it is the parameter \<open>md5\<close>, and the type \<open>'d\<close> of
  digests is left open.
\<close>

definition combined :: "jsval \<Rightarrow> jsval \<Rightarrow> string" where
  "combined ipv ua =
     ToString (js_or ipv (JStr ''unknown'')) @ ''|'' @ ToString (js_or ua (JStr ''unknown''))"

definition createFingerprint :: "(string \<Rightarrow> 'd) \<Rightarrow> jsval \<Rightarrow> jsval \<Rightarrow> 'd" where
  "createFingerprint md5 ipv ua = md5 (combined ipv ua)"

definition fingerprint_of :: "(string \<Rightarrow> 'd) \<Rightarrow> LogEntry \<Rightarrow> 'd" where
  "fingerprint_of md5 entry = createFingerprint md5 (ip entry) (userAgent entry)"

subsection \<open>Numbers\<close>

text \<open>\<open>_average\<close>: every sum of the \<open>reduce\<close> and the quotient are rounded.\<close>

definition average :: "rat list \<Rightarrow> number" where
  "average numbers =
     (if length numbers = 0 then Fin 0
      else Fin (round53 (foldl (\<lambda>sum n. round53 (sum + n)) 0 numbers
                         / of_nat (length numbers))))"

text \<open>\<open>_formatDuration\<close>; \<open>Math.floor\<close> is applied to the rounded quotient.\<close>

fun formatDuration :: "number \<Rightarrow> string" where
  "formatDuration (Fin ms) =
     (let seconds = \<lfloor>round53 (ms / 1000)\<rfloor>;
          minutes = \<lfloor>round53 (of_int seconds / 60)\<rfloor>;
          hours = \<lfloor>round53 (of_int minutes / 60)\<rfloor>
      in if hours > 0 then dec_int hours @ ''h '' @ dec_int (minutes mod 60) @ ''m''
         else if minutes > 0 then dec_int minutes @ ''m '' @ dec_int (seconds mod 60) @ ''s''
         else dec_int seconds @ ''s'')"
| "formatDuration NaN = ''NaNs''"
| "formatDuration Infinity = ''Infinityh NaNm''"

text \<open>\<open>_calculateBounceRate\<close>\<close>

definition calculateBounceRate :: "nat list \<Rightarrow> string" where
  "calculateBounceRate pagesPerSession =
     (let bounces = length (filter (\<lambda>pages. pages = 1) pagesPerSession)
      in toFixed2 (js_times (js_div bounces (length pagesPerSession)) 100))"

subsection \<open>Sessions\<close>

text \<open>\<open>visitorSessions[fingerprint].push(visit)\<close>, the list created on first use.\<close>

fun push_visit :: "'d \<Rightarrow> Visit \<Rightarrow> ('d \<times> Visit list) list \<Rightarrow> ('d \<times> Visit list) list" where
  "push_visit fp v [] = [(fp, [v])]"
| "push_visit fp v ((k, vs) # rest) =
     (if k = fp then (k, vs @ [v]) # rest else (k, vs) # push_visit fp v rest)"

text \<open>
  The object \<open>visitorSessions\<close> after the first \<open>forEach\<close>: the visitors in the order of
  their first entry (a hexadecimal digest of 32 characters is never an array index, so
  \<open>Object.values\<close> keeps the insertion order), each with its visits in input order.
\<close>

definition visit_of :: "LogEntry \<Rightarrow> Visit" where
  "visit_of entry =
     \<lparr>Visit.timestamp = timestamp entry, Visit.path = js_or (path entry) (url entry)\<rparr>"

definition visitorSessions :: "(string \<Rightarrow> 'd) \<Rightarrow> LogEntry list \<Rightarrow> ('d \<times> Visit list) list" where
  "visitorSessions md5 entries =
     fold (\<lambda>entry m. push_visit (fingerprint_of md5 entry) (visit_of entry) m) entries []"

text \<open>The three accumulators of \<open>_calculateSessions\<close>.\<close>

record SessionTally =
  totalSessions :: nat
  sessionDurations :: "int list"
  pagesPerSession :: "nat list"

definition close_session :: "int \<Rightarrow> nat \<Rightarrow> SessionTally \<Rightarrow> SessionTally" where
  "close_session dur pages tally =
     tally\<lparr>sessionDurations := sessionDurations tally @ [dur],
           pagesPerSession := pagesPerSession tally @ [pages],
           totalSessions := totalSessions tally + 1\<rparr>"

text \<open>
  The \<open>for\<close> loop over \<open>visits[1..]\<close>: \<open>prev\<close> is \<open>visits[i - 1].timestamp\<close>, the state is
  \<open>(sessionStart, sessionPages, tally)\<close>; it returns the state and the last timestamp.
\<close>

fun session_loop ::
  "int \<Rightarrow> int \<Rightarrow> Visit list \<Rightarrow> int \<times> nat \<times> SessionTally \<Rightarrow> int \<times> int \<times> nat \<times> SessionTally" where
  "session_loop timeout prev [] (sessionStart, sessionPages, tally) =
     (prev, sessionStart, sessionPages, tally)"
| "session_loop timeout prev (v # vs) (sessionStart, sessionPages, tally) =
     (let timeDiff = Visit.timestamp v - prev
      in if timeDiff > timeout
         then session_loop timeout (Visit.timestamp v) vs
                (Visit.timestamp v, 1, close_session (prev - sessionStart) sessionPages tally)
         else session_loop timeout (Visit.timestamp v) vs
                (sessionStart, sessionPages + 1, tally))"

text \<open>
  The body of the second \<open>forEach\<close>, for one visitor: the stable sort by timestamp, the
  loop, and the last session. \<open>visits[0].timestamp\<close> throws on an empty array.
\<close>

definition visitor_sessions :: "int \<Rightarrow> Visit list \<Rightarrow> SessionTally \<Rightarrow> error + SessionTally" where
  "visitor_sessions timeout visits0 tally =
     (case sort_key Visit.timestamp visits0 of
        [] \<Rightarrow> Inl TypeError
      | v # vs \<Rightarrow>
          (case session_loop timeout (Visit.timestamp v) vs (Visit.timestamp v, 1, tally) of
             (lastTimestamp, sessionStart, sessionPages, tally') \<Rightarrow>
               Inr (close_session (lastTimestamp - sessionStart) sessionPages tally')))"

fun forEach_visitor :: "int \<Rightarrow> Visit list list \<Rightarrow> SessionTally \<Rightarrow> error + SessionTally" where
  "forEach_visitor timeout [] tally = Inr tally"
| "forEach_visitor timeout (vs # rest) tally =
     (case visitor_sessions timeout vs tally of
        Inl e \<Rightarrow> Inl e
      | Inr tally' \<Rightarrow> forEach_visitor timeout rest tally')"

text \<open>The accumulators after the second \<open>forEach\<close>.\<close>

definition session_tally ::
  "AnalyticsReconstructor \<Rightarrow> (string \<Rightarrow> 'd) \<Rightarrow> LogEntry list \<Rightarrow> error + SessionTally" where
  "session_tally this md5 entries =
     forEach_visitor (sessionTimeout this) (map snd (visitorSessions md5 entries))
       \<lparr>totalSessions = 0, sessionDurations = [], pagesPerSession = []\<rparr>"

record Sessions =
  total :: nat
  avgDuration :: number
  avgDurationFormatted :: string
  avgPagesPerSession :: string
  bounceRate :: string

text \<open>\<open>_calculateSessions\<close>\<close>

definition calculateSessions ::
  "AnalyticsReconstructor \<Rightarrow> (string \<Rightarrow> 'd) \<Rightarrow> LogEntry list \<Rightarrow> error + Sessions" where
  "calculateSessions this md5 entries =
     (case session_tally this md5 entries of
        Inl e \<Rightarrow> Inl e
      | Inr tally \<Rightarrow>
          Inr \<lparr>total = totalSessions tally,
               avgDuration = average (map of_int (sessionDurations tally)),
               avgDurationFormatted = formatDuration (average (map of_int (sessionDurations tally))),
               avgPagesPerSession = toFixed2 (average (map of_nat (pagesPerSession tally))),
               bounceRate = calculateBounceRate (pagesPerSession tally)\<rparr>)"

subsection \<open>Referrers\<close>

text \<open>
  \<open>new URL(url)\<close> without a base throws unless \<open>url\<close>, after its leading control
  characters and spaces and all its tabs and newlines are removed, starts with a scheme: a
  letter, then letters, digits, \<open>+\<close>, \<open>-\<close> or \<open>.\<close>, then a colon. What the parser does with
  an input that has a scheme is the parameter \<open>url_parser\<close>: \<open>None\<close> when it throws, else
  the \<open>hostname\<close> of the URL.
\<close>

definition is_alpha :: "char \<Rightarrow> bool" where
  "is_alpha c = (c \<in> set ''abcdefghijklmnopqrstuvwxyzABCDEFGHIJKLMNOPQRSTUVWXYZ'')"

definition is_digit :: "char \<Rightarrow> bool" where
  "is_digit c = (c \<in> set ''0123456789'')"

definition is_scheme_char :: "char \<Rightarrow> bool" where
  "is_scheme_char c = (is_alpha c \<or> is_digit c \<or> c \<in> set ''+-.'')"

definition has_scheme :: "string \<Rightarrow> bool" where
  "has_scheme s =
     (case filter (\<lambda>c. (of_char c :: nat) \<notin> set [9, 10, 13])
             (dropWhile (\<lambda>c. (of_char c :: nat) \<le> 32) s) of
        [] \<Rightarrow> False
      | c # cs \<Rightarrow>
          is_alpha c \<and>
          (case dropWhile is_scheme_char cs of [] \<Rightarrow> False | d # rest \<Rightarrow> d = CHR '':''))"

definition URL_hostname :: "(string \<Rightarrow> string option) \<Rightarrow> string \<Rightarrow> string option" where
  "URL_hostname url_parser s = (if has_scheme s then url_parser s else None)"

text \<open>\<open>_extractHostname\<close>; the \<open>catch\<close> returns its argument.\<close>

definition extractHostname :: "(string \<Rightarrow> string option) \<Rightarrow> jsval \<Rightarrow> jsval" where
  "extractHostname url_parser u =
     (if \<not> truthy u \<or> u = JStr ''Direct'' then JStr ''Direct''
      else case URL_hostname url_parser (ToString u) of
             Some hostname \<Rightarrow> JStr hostname
           | None \<Rightarrow> u)"

text \<open>
  The key under which an entry is counted:
  \<open>_extractHostname(entry.referer || entry.referrer || 'Direct')\<close> as a property name.
\<close>

definition referrer_key :: "(string \<Rightarrow> string option) \<Rightarrow> LogEntry \<Rightarrow> string" where
  "referrer_key url_parser entry =
     ToString (extractHostname url_parser
       (js_or (js_or (referer entry) (referrer entry)) (JStr ''Direct'')))"

text \<open>
  The dictionary \<open>referrers\<close> is an object literal \<open>{}\<close>, so a key that names a member
  of \<open>Object.prototype\<close> finds that member: the entry is not created, and
  \<open>referrers[hostname].uniqueVisitors.add\<close> throws.
\<close>

definition object_prototype_keys :: "string list" where
  "object_prototype_keys =
     [''constructor'', ''hasOwnProperty'', ''isPrototypeOf'', ''propertyIsEnumerable'',
      ''toLocaleString'', ''toString'', ''valueOf'', ''__proto__'', ''__defineGetter__'',
      ''__defineSetter__'', ''__lookupGetter__'', ''__lookupSetter__'']"

text \<open>
  One step of the \<open>forEach\<close>: the entry \<open>{count, uniqueVisitors}\<close> is created on first use,
  the count incremented and the fingerprint added to the set (kept as a list without
  repetition).
\<close>

fun count_referrer ::
  "string \<Rightarrow> 'd \<Rightarrow> (string \<times> nat \<times> 'd list) list \<Rightarrow> (string \<times> nat \<times> 'd list) list" where
  "count_referrer hostname fp [] = [(hostname, 1, [fp])]"
| "count_referrer hostname fp ((k, n, fps) # rest) =
     (if k = hostname then (k, n + 1, if fp \<in> set fps then fps else fps @ [fp]) # rest
      else (k, n, fps) # count_referrer hostname fp rest)"

fun referrers_forEach ::
  "(string \<Rightarrow> 'd) \<Rightarrow> (string \<Rightarrow> string option) \<Rightarrow> LogEntry list
     \<Rightarrow> (string \<times> nat \<times> 'd list) list \<Rightarrow> error + (string \<times> nat \<times> 'd list) list" where
  "referrers_forEach md5 url_parser [] m = Inr m"
| "referrers_forEach md5 url_parser (entry # rest) m =
     (let hostname = referrer_key url_parser entry
      in if hostname \<in> set object_prototype_keys then Inl TypeError
         else referrers_forEach md5 url_parser rest
                (count_referrer hostname (fingerprint_of md5 entry) m))"

text \<open>
  \<open>Object.entries\<close>: the keys that are array indices (canonical decimal numerals up to
  \<open>2^32 - 2\<close>) first, in ascending order, then the other keys in insertion order.
\<close>

definition digits_value :: "string \<Rightarrow> nat" where
  "digits_value k = foldl (\<lambda>n c. 10 * n + (of_char c - 48)) 0 k"

definition is_array_index :: "string \<Rightarrow> bool" where
  "is_array_index k =
     (k \<noteq> [] \<and> list_all is_digit k \<and> (k = ''0'' \<or> hd k \<noteq> CHR ''0'')
      \<and> digits_value k \<le> 4294967294)"

definition object_entries :: "(string \<times> 'a) list \<Rightarrow> (string \<times> 'a) list" where
  "object_entries m =
     sort_key (\<lambda>kv. digits_value (fst kv)) (filter (\<lambda>kv. is_array_index (fst kv)) m)
     @ filter (\<lambda>kv. \<not> is_array_index (fst kv)) m"

record Referrers =
  total :: nat
  top :: "ReferrerRow list"
  all :: "ReferrerRow list"

text \<open>A row of the result, from an entry of the dictionary.\<close>

definition referrer_row :: "string \<times> nat \<times> 'd list \<Rightarrow> ReferrerRow" where
  "referrer_row kv =
     \<lparr>ReferrerRow.referrer = fst kv, visits = fst (snd kv),
      uniqueVisitors = length (snd (snd kv))\<rparr>"

text \<open>\<open>_calculateReferrers\<close>; the sort by descending visits is stable.\<close>

definition calculateReferrers ::
  "(string \<Rightarrow> 'd) \<Rightarrow> (string \<Rightarrow> string option) \<Rightarrow> LogEntry list \<Rightarrow> error + Referrers" where
  "calculateReferrers md5 url_parser entries =
     (case referrers_forEach md5 url_parser entries [] of
        Inl e \<Rightarrow> Inl e
      | Inr m \<Rightarrow>
          (let sorted = sort_key (\<lambda>row. - int (visits row)) (map referrer_row (object_entries m))
           in Inr \<lparr>total = length sorted, top = take 10 sorted, all = sorted\<rparr>))"

subsection \<open>Devices\<close>

text \<open>A regular expression that is an alternation of literals, with the flag \<open>i\<close>.\<close>

definition regex_any :: "string list \<Rightarrow> string \<Rightarrow> bool" where
  "regex_any alternatives s = list_ex (\<lambda>p. regex_test p s) alternatives"

text \<open>\<open>_detectDevice\<close>\<close>

definition detectDevice :: "string \<Rightarrow> string" where
  "detectDevice ua =
     (if regex_any [''mobile'', ''android'', ''iphone'', ''ipod'', ''blackberry'', ''iemobile''] ua
      then ''mobile''
      else if regex_any [''tablet'', ''ipad''] ua then ''tablet''
      else if regex_any [''mozilla'', ''chrome'', ''safari'', ''firefox'', ''opera'', ''edge''] ua
      then ''desktop''
      else ''unknown'')"

record 'a DeviceBreakdown =
  mobile :: 'a
  tablet :: 'a
  desktop :: 'a
  unknown :: 'a

record Devices =
  counts :: "nat DeviceBreakdown"
  percentages :: "string DeviceBreakdown"

text \<open>\<open>devices[deviceType]++\<close>\<close>

definition count_device :: "string \<Rightarrow> nat DeviceBreakdown \<Rightarrow> nat DeviceBreakdown" where
  "count_device deviceType devs =
     (if deviceType = ''mobile'' then devs\<lparr>mobile := mobile devs + 1\<rparr>
      else if deviceType = ''tablet'' then devs\<lparr>tablet := tablet devs + 1\<rparr>
      else if deviceType = ''desktop'' then devs\<lparr>desktop := desktop devs + 1\<rparr>
      else devs\<lparr>unknown := unknown devs + 1\<rparr>)"

text \<open>
  The \<open>forEach\<close> of \<open>_calculateDevices\<close>: \<open>(entry.userAgent || '').toLowerCase()\<close> throws
  when the user agent is truthy and not a string.
\<close>

fun devices_forEach :: "LogEntry list \<Rightarrow> nat DeviceBreakdown \<Rightarrow> error + nat DeviceBreakdown" where
  "devices_forEach [] devs = Inr devs"
| "devices_forEach (entry # rest) devs =
     (case js_or (userAgent entry) (JStr []) of
        JStr s \<Rightarrow> devices_forEach rest (count_device (detectDevice (toLowerCase s)) devs)
      | _ \<Rightarrow> Inl TypeError)"

text \<open>\<open>_calculateDevices\<close>\<close>

definition calculateDevices :: "LogEntry list \<Rightarrow> error + Devices" where
  "calculateDevices entries =
     (case devices_forEach entries \<lparr>mobile = 0, tablet = 0, desktop = 0, unknown = 0\<rparr> of
        Inl e \<Rightarrow> Inl e
      | Inr devs \<Rightarrow>
          (let n = length entries
           in Inr \<lparr>counts = devs,
                   percentages =
                     \<lparr>mobile = toFixed2 (js_times (js_div (mobile devs) n) 100),
                      tablet = toFixed2 (js_times (js_div (tablet devs) n) 100),
                      desktop = toFixed2 (js_times (js_div (desktop devs) n) 100),
                      unknown = toFixed2 (js_times (js_div (unknown devs) n) 100)\<rparr>\<rparr>))"

subsection \<open>processLogs\<close>

text \<open>
  The result of \<open>processLogs\<close>, restricted to the aggregates modelled here: \<open>overview\<close>
  without its \<open>dateRange\<close>, \<open>sessions\<close>, \<open>referrers\<close> and \<open>devices\<close>. The other
  aggregates (\<open>overview.dateRange\<close>, \<open>visitors\<close>, \<open>impressions\<close>, \<open>pages\<close>, \<open>browsers\<close>,
  \<open>geography\<close> and \<open>timeline\<close>) are left out, their values and their exceptions alike:
  \<open>_calculateImpressions\<close> and \<open>_calculatePageViews\<close> throw a \<open>TypeError\<close> on an entry whose
  normalised path names a member of \<open>Object.prototype\<close> (the path of a URL such as
  \<open>x:constructor\<close>), as \<open>_calculateReferrers\<close> does on such a key, and \<open>toISOString\<close> throws a
  \<open>RangeError\<close> on a timestamp that is not a date. So \<open>processLogs\<close> below is the code only
  in one direction and on a part of the logs: where it returns \<open>Inl\<close>, the code throws (the
  aggregates left out do not catch, and \<open>filterLogs\<close> runs before all of them); where it
  returns \<open>Inr\<close>, the code returns these four aggregates provided that no aggregate left
  out throws, as on the empty log, on which each of them returns without reading an entry.
\<close>

record Overview =
  totalRequests :: nat
  totalBots :: nat
  botPercentage :: jsval

record Analytics =
  overview :: Overview
  sessions :: Sessions
  referrers :: Referrers
  devices :: Devices

text \<open>
  The first statement of \<open>processLogs\<close>: the legitimate entries, the number of bots and
  \<open>filteredLogs.stats\<close>, which is absent without a \<open>botFilter\<close>.
\<close>

definition filteredLogs ::
  "AnalyticsReconstructor \<Rightarrow> LogEntry list \<Rightarrow> error + LogEntry list \<times> nat \<times> FilterStats option" where
  "filteredLogs this logEntries =
     (case botFilter this of
        None \<Rightarrow> Inr (logEntries, 0, None)
      | Some bf \<Rightarrow>
          (case filterLogs bf logEntries of
             Inl e \<Rightarrow> Inl e
           | Inr results \<Rightarrow> Inr (legitimate results, length (bots results), Some (stats results))))"

definition processLogs ::
  "AnalyticsReconstructor \<Rightarrow> (string \<Rightarrow> 'd) \<Rightarrow> (string \<Rightarrow> string option) \<Rightarrow> LogEntry list
     \<Rightarrow> error + Analytics" where
  "processLogs this md5 url_parser logEntries =
     (case filteredLogs this logEntries of
        Inl e \<Rightarrow> Inl e
      | Inr (legitimateEntries, nbots, filterStats) \<Rightarrow>
          (case calculateSessions this md5 legitimateEntries of
             Inl e \<Rightarrow> Inl e
           | Inr sess \<Rightarrow>
               (case calculateReferrers md5 url_parser legitimateEntries of
                  Inl e \<Rightarrow> Inl e
                | Inr refs \<Rightarrow>
                    (case calculateDevices legitimateEntries of
                       Inl e \<Rightarrow> Inl e
                     | Inr devs \<Rightarrow>
                         Inr \<lparr>overview =
                                \<lparr>totalRequests = length legitimateEntries,
                                 totalBots = nbots,
                                 botPercentage =
                                   (case filterStats of
                                      None \<Rightarrow> JNum 0
                                    | Some st \<Rightarrow> js_or (FilterStats.botPercentage st) (JNum 0))\<rparr>,
                              sessions = sess, referrers = refs, devices = devs\<rparr>))))"

text \<open>
  The sessions of one visitor as the specification describes them: the maximal runs of
  the timestamps, sorted ascending, in which consecutive events are no more than the
  timeout apart. Each run is one session, of duration last minus first and of page count
  its length.
\<close>

fun spec_sessions :: "int \<Rightarrow> int list \<Rightarrow> int list list" where
  "spec_sessions timeout [] = []"
| "spec_sessions timeout [t] = [[t]]"
| "spec_sessions timeout (t # u # ts) =
     (if u - t > timeout then [t] # spec_sessions timeout (u # ts)
      else case spec_sessions timeout (u # ts) of
             [] \<Rightarrow> [[t]]
           | run # runs \<Rightarrow> (t # run) # runs)"

text \<open>The tally of one visitor's events, and the tallies of two visitors put together.\<close>

definition spec_tally :: "int \<Rightarrow> int list \<Rightarrow> SessionTally" where
  "spec_tally timeout ts =
     (let runs = spec_sessions timeout (sort ts)
      in \<lparr>totalSessions = length runs,
          sessionDurations = map (\<lambda>run. last run - hd run) runs,
          pagesPerSession = map length runs\<rparr>)"

definition tally_append :: "SessionTally \<Rightarrow> SessionTally \<Rightarrow> SessionTally" where
  "tally_append a b =
     \<lparr>totalSessions = totalSessions a + totalSessions b,
      sessionDurations = sessionDurations a @ sessionDurations b,
      pagesPerSession = pagesPerSession a @ pagesPerSession b\<rparr>"

definition no_sessions :: SessionTally where
  "no_sessions = \<lparr>totalSessions = 0, sessionDurations = [], pagesPerSession = []\<rparr>"

text \<open>
  The bounce rate as the specification words it: the sessions of exactly one page as a
  percentage of all sessions, rounded to hundredths (half up) and printed with two
  decimals.
\<close>

definition spec_bounce_rate :: "nat list \<Rightarrow> string" where
  "spec_bounce_rate pageCounts =
     (let bounces = count_list pageCounts 1;
          hundredths = (2 * (10000 * bounces) + length pageCounts) div (2 * length pageCounts)
      in dec (hundredths div 100) @ ''.''
         @ [digit (hundredths mod 100 div 10), digit (hundredths mod 10)])"

section \<open>The behavioural score as the specification words it\<close>

text \<open>
  The seven indicators with their penalties: the accumulated confidence is the sum of
  the penalties of the triggered indicators, and the reasons are their messages in this
  order. \<open>h\<close> is the \<open>headers\<close> object of the session \<open>s\<close>.
\<close>

definition spec_confidence :: "Session \<Rightarrow> Headers \<Rightarrow> nat" where
  "spec_confidence s h =
     (if js_gt (requestsPerMinute s) 100 then 30 else 0)
     + (if js_lt (duration s) 2000 then 20 else 0)
     + (if \<not> truthy (hasJavaScript s) then 25 else 0)
     + (if accessPattern s = JStr ''sequential'' \<and> truthy (perfectTiming s) then 25 else 0)
     + (if js_eq (errorRate s) 0 \<and> js_gt (requestCount s) 50 then 15 else 0)
     + (if \<not> truthy (acceptLanguage h) then 10 else 0)
     + (if \<not> truthy (Headers.referer h) \<and> js_gt (requestCount s) 5 then 10 else 0)"

definition spec_reasons :: "Session \<Rightarrow> Headers \<Rightarrow> string list" where
  "spec_reasons s h =
     (if js_gt (requestsPerMinute s) 100 then [''Excessive request rate''] else [])
     @ (if js_lt (duration s) 2000 then [''Suspiciously short session''] else [])
     @ (if \<not> truthy (hasJavaScript s) then [''No JavaScript execution detected''] else [])
     @ (if accessPattern s = JStr ''sequential'' \<and> truthy (perfectTiming s)
        then [''Perfect sequential access pattern''] else [])
     @ (if js_eq (errorRate s) 0 \<and> js_gt (requestCount s) 50
        then [''Zero error rate with high request count''] else [])
     @ (if \<not> truthy (acceptLanguage h) then [''Missing Accept-Language header''] else [])
     @ (if \<not> truthy (Headers.referer h) \<and> js_gt (requestCount s) 5
        then [''Missing Referer header on multiple requests''] else [])"

section \<open>Example inputs\<close>

text \<open>
  The three entries of the repository's own module test, with the instants of
  \<open>2024-01-15T10:00:00Z\<close>, \<open>10:01:00Z\<close> and \<open>10:02:00Z\<close>.
\<close>

definition chrome_ua :: string where
  "chrome_ua = ''Mozilla/5.0 (Windows NT 10.0; Win64; x64) Chrome/120.0.0.0''"

definition testLogs :: "LogEntry list" where
  "testLogs =
     [\<lparr>userAgent = JStr chrome_ua, ip = JStr ''192.168.1.1'', session = None,
       timestamp = 1705312800000, path = JStr ''/'', url = JUndefined,
       referer = JStr ''https://google.com'', referrer = JUndefined,
       country = JUndefined, city = JUndefined\<rparr>,
      \<lparr>userAgent = JStr chrome_ua, ip = JStr ''192.168.1.1'', session = None,
       timestamp = 1705312860000, path = JStr ''/about'', url = JUndefined,
       referer = JStr ''/'', referrer = JUndefined,
       country = JUndefined, city = JUndefined\<rparr>,
      \<lparr>userAgent = JStr ''Googlebot/2.1'', ip = JStr ''66.249.64.1'', session = None,
       timestamp = 1705312920000, path = JStr ''/sitemap.xml'', url = JUndefined,
       referer = JUndefined, referrer = JUndefined,
       country = JUndefined, city = JUndefined\<rparr>]"

text \<open>
  One visitor with events at 0, 10 and 45 minutes, and the same events in another order.
\<close>

definition visit_at :: "int \<Rightarrow> LogEntry" where
  "visit_at t =
     \<lparr>userAgent = JStr chrome_ua, ip = JStr ''192.168.1.1'', session = None,
      timestamp = t, path = JStr ''/'', url = JUndefined,
      referer = JUndefined, referrer = JUndefined,
      country = JUndefined, city = JUndefined\<rparr>"

definition threeVisits :: "LogEntry list" where
  "threeVisits = [visit_at 0, visit_at 600000, visit_at 2700000]"

definition threeVisits_shuffled :: "LogEntry list" where
  "threeVisits_shuffled = [visit_at 2700000, visit_at 0, visit_at 600000]"

text \<open>The session object \<open>{}\<close>: every field absent, \<open>headers\<close> too.\<close>

definition empty_session :: Session where
  "empty_session =
     \<lparr>requestsPerMinute = None, duration = None, hasJavaScript = JUndefined,
      accessPattern = JUndefined, perfectTiming = JUndefined, errorRate = None,
      requestCount = None, headers = None\<rparr>"

text \<open>An entry of a browser without \<open>ip\<close> that carries the session object \<open>{}\<close>.\<close>

definition sessionEntry :: LogEntry where
  "sessionEntry =
     \<lparr>userAgent = JStr chrome_ua, ip = JUndefined, session = Some empty_session,
      timestamp = 1705312800000, path = JStr ''/'', url = JUndefined,
      referer = JUndefined, referrer = JUndefined,
      country = JUndefined, city = JUndefined\<rparr>"

text \<open>A URL parser that knows the one URL of the test log.\<close>

definition google_only :: "string \<Rightarrow> string option" where
  "google_only s = (if s = ''https://google.com'' then Some ''google.com'' else None)"

text \<open>A session of 150 requests per minute without JavaScript, with both headers.\<close>

definition rapid_session :: Session where
  "rapid_session =
     \<lparr>requestsPerMinute = Some 150, duration = Some 60000, hasJavaScript = JBool False,
      accessPattern = JStr ''random'', perfectTiming = JBool False, errorRate = Some 0,
      requestCount = Some 12,
      headers = Some \<lparr>acceptLanguage = JStr ''en'', referer = JStr ''https://example.com/''\<rparr>\<rparr>"

section \<open>Precedence of the user-agent check\<close>

lemma isBotUserAgent_match:
  "p \<in> set (botPatterns this) \<Longrightarrow> regex_test p ua \<Longrightarrow> isBotUserAgent this (JStr ua)"
  by (auto simp: isBotUserAgent_def list_ex_iff)

text \<open>
  C1. A request whose \<open>userAgent\<close> is a string that some signature of the catalog matches
  is classified as a bot with confidence 95 and method \<open>user-agent\<close>, whatever its \<open>ip\<close>
  and \<open>session\<close> are. The later checks are not evaluated: the verdict is returned also for
  an \<open>ip\<close> on which \<open>isBotIP\<close> throws and a \<open>session\<close> on which \<open>analyzeBehavior\<close> throws.
\<close>

theorem isBot_user_agent_precedence:
  assumes "userAgent request = JStr ua"
    and "p \<in> set (botPatterns this)"
    and "regex_test p ua"
  shows "isBot this request =
           Inr \<lparr>is_bot = True, confidence = 95, reasons = [''Bot user-agent detected''],
                method = Some ''user-agent''\<rparr>"
  using isBotUserAgent_match [OF assms(2,3)] assms(1)
  by (simp add: isBot_def)

lemma regex_test_googlebot: "regex_test ''googlebot'' ''Googlebot/2.1''"
  by (simp add: regex_test_def toLowerCase_def lower_def)

lemma googlebot_in_catalog: "''googlebot'' \<in> set (botPatterns BotFilter_new)"
  by (simp add: BotFilter_new_def)

theorem isBot_user_agent_precedence_witness:
  "regex_test ''googlebot'' ''Googlebot/2.1''
   \<and> ''googlebot'' \<in> set (botPatterns BotFilter_new)
   \<and> isBotIP (JNum 5) = Inl TypeError
   \<and> analyzeBehavior BotFilter_new empty_session = Inl TypeError
   \<and> isBot BotFilter_new
         \<lparr>userAgent = JStr ''Googlebot/2.1'', ip = JNum 5, session = Some empty_session\<rparr>
       = Inr \<lparr>is_bot = True, confidence = 95, reasons = [''Bot user-agent detected''],
              method = Some ''user-agent''\<rparr>"
proof -
  have ip: "isBotIP (JNum 5) = Inl TypeError"
    by (simp add: isBotIP_def)
  have beh: "analyzeBehavior BotFilter_new empty_session = Inl TypeError"
    by (simp add: analyzeBehavior_def empty_session_def)
  have ua: "userAgent \<lparr>userAgent = JStr ''Googlebot/2.1'', ip = JNum 5,
      session = Some empty_session\<rparr> = JStr ''Googlebot/2.1''"
    by simp
  show ?thesis
    using regex_test_googlebot googlebot_in_catalog ip beh
      isBot_user_agent_precedence [OF ua googlebot_in_catalog regex_test_googlebot]
    by simp
qed

section \<open>The partition of the log\<close>

lemma forEach_total:
  "filterLogs_forEach this es acc = Inr r \<Longrightarrow> FilterResults.total r = FilterResults.total acc"
  by (induction es arbitrary: acc) (auto split: sum.splits if_splits)

lemma forEach_legitimate:
  "filterLogs_forEach this es acc = Inr r \<Longrightarrow>
     legitimate r = legitimate acc @ filter (\<lambda>e. \<not> flagged this e) es"
  by (induction es arbitrary: acc) (auto simp: flagged_def split: sum.splits if_splits)

lemma forEach_bots_truncate:
  "filterLogs_forEach this es acc = Inr r \<Longrightarrow>
     map LogEntry.truncate (bots r) = map LogEntry.truncate (bots acc) @ filter (flagged this) es"
  by (induction es arbitrary: acc)
     (auto simp: flagged_def LogEntry.defs BotLogEntry.defs Request.defs split: sum.splits if_splits)

lemma forEach_bots_detection:
  "filterLogs_forEach this es acc = Inr r \<Longrightarrow>
     map (\<lambda>b. Inr (botDetection b)) (bots r) =
       map (\<lambda>b. Inr (botDetection b)) (bots acc) @ map (detect this) (filter (flagged this) es)"
  by (induction es arbitrary: acc)
     (auto simp: flagged_def LogEntry.defs BotLogEntry.defs Request.defs split: sum.splits if_splits)

lemma forEach_returns:
  "list_all (\<lambda>e. returns (detect this e)) es \<Longrightarrow> returns (filterLogs_forEach this es acc)"
proof (induction es arbitrary: acc)
  case Nil
  show ?case by (simp add: returns_def)
next
  case (Cons e es)
  from Cons.prems obtain d where d: "detect this e = Inr d"
    by (auto simp: returns_def split: sum.splits)
  from Cons.prems have rest: "list_all (\<lambda>e. returns (detect this e)) es" by simp
  show ?case using d Cons.IH [OF rest] by simp
qed

lemma filterLogs_returns:
  "list_all (\<lambda>e. returns (detect this e)) es \<Longrightarrow> returns (filterLogs this es)"
  using forEach_returns [of this es "initial_results es"]
  by (auto simp: filterLogs_def returns_def split: sum.splits)

lemma filterLogs_fields:
  assumes "filterLogs this es = Inr r"
  shows "FilterResults.total r = length es"
    and "legitimate r = filter (\<lambda>e. \<not> flagged this e) es"
    and "map LogEntry.truncate (bots r) = filter (flagged this) es"
    and "map (\<lambda>b. Inr (botDetection b)) (bots r) = map (detect this) (filter (flagged this) es)"
proof -
  from assms obtain r0 where r0: "filterLogs_forEach this es (initial_results es) = Inr r0"
    and r: "r = r0\<lparr>stats := (stats r0)\<lparr>FilterStats.botPercentage :=
                 JStr (toFixed2 (js_times (js_div (length (bots r0)) (FilterResults.total r0)) 100))\<rparr>\<rparr>"
    by (auto simp: filterLogs_def split: sum.splits)
  show "FilterResults.total r = length es"
    using forEach_total [OF r0] r by (simp add: initial_results_def)
  show "legitimate r = filter (\<lambda>e. \<not> flagged this e) es"
    using forEach_legitimate [OF r0] r by (simp add: initial_results_def)
  show "map LogEntry.truncate (bots r) = filter (flagged this) es"
    using forEach_bots_truncate [OF r0] r by (simp add: initial_results_def)
  show "map (\<lambda>b. Inr (botDetection b)) (bots r) = map (detect this) (filter (flagged this) es)"
    using forEach_bots_detection [OF r0] r by (simp add: initial_results_def)
qed

text \<open>
  The classification of an entry returns when its \<open>ip\<close> is falsy or a string and it
  carries no session, or a session with its \<open>headers\<close> object.
\<close>

lemma detect_returns:
  assumes "\<not> truthy (ip e) \<or> typeof (ip e) = ''string''"
    and "session e = None \<or> (\<exists>s h. session e = Some s \<and> headers s = Some h)"
  shows "returns (detect this e)"
proof -
  have ipr: "truthy (ip e) \<Longrightarrow> \<exists>b. isBotIP (ip e) = Inr b"
    using assms(1) by (cases "ip e") (simp_all add: isBotIP_def)
  have beh: "returns (isBot_behavior this (session e) d)" for d
    using assms(2)
    by (auto simp: isBot_behavior_def returns_def analyzeBehavior_def Let_def split: option.splits)
  show ?thesis
  proof (cases "isBotUserAgent this (userAgent e)")
    case True
    then show ?thesis by (simp add: detect_def isBot_def returns_def)
  next
    case False
    show ?thesis
    proof (cases "truthy (ip e)")
      case ipf: False
      with False beh show ?thesis by (simp add: detect_def isBot_def Let_def)
    next
      case ipt: True
      with ipr obtain b where "isBotIP (ip e) = Inr b" by blast
      with False ipt beh show ?thesis
        by (cases b) (simp_all add: detect_def isBot_def Let_def returns_def)
    qed
  qed
qed

text \<open>
  C2. Whenever the classification of every entry returns a verdict, \<open>filterLogs\<close> returns,
  and its two output arrays partition the input: their lengths add up to the length of
  the input; the legitimate entries are the input entries not flagged, unchanged and in
  input order; the bot entries, without their annotation \<open>botDetection\<close>, are the flagged
  input entries, unchanged and in input order, and the annotation of each is the verdict
  \<open>isBot\<close> gave for it; as multisets the two outputs together are the input, so every
  entry is in exactly one of them.
\<close>

theorem filterLogs_partition:
  assumes "list_all (\<lambda>e. returns (detect this e)) entries"
  shows "\<exists>r. filterLogs this entries = Inr r
           \<and> FilterResults.total r = length entries
           \<and> length (legitimate r) + length (bots r) = length entries
           \<and> legitimate r = filter (\<lambda>e. \<not> flagged this e) entries
           \<and> map LogEntry.truncate (bots r) = filter (flagged this) entries
           \<and> map (\<lambda>b. Inr (botDetection b)) (bots r)
                = map (detect this) (filter (flagged this) entries)
           \<and> mset (legitimate r) + mset (map LogEntry.truncate (bots r)) = mset entries"
proof -
  from filterLogs_returns [OF assms] obtain r where r: "filterLogs this entries = Inr r"
    by (auto simp: returns_def split: sum.splits)
  note f = filterLogs_fields [OF r]
  have len: "length (legitimate r) + length (bots r) = length entries"
  proof -
    have "length (bots r) = length (map LogEntry.truncate (bots r))" by simp
    also have "\<dots> = length (filter (flagged this) entries)" by (simp only: f(3))
    finally show ?thesis
      using sum_length_filter_compl [of "flagged this" entries] by (simp add: f(2))
  qed
  have ms: "mset (legitimate r) + mset (map LogEntry.truncate (bots r)) = mset entries"
    by (simp only: f(2,3)) (simp add: add.commute)
  from r f len ms show ?thesis by blast
qed

lemma lower_chrome: "toLowerCase chrome_ua = ''mozilla/5.0 (windows nt 10.0; win64; x64) chrome/120.0.0.0''"
  by (simp add: toLowerCase_def lower_def chrome_ua_def)

lemma lower_patterns: "map toLowerCase (botPatterns BotFilter_new) = botPatterns BotFilter_new"
  by (simp add: toLowerCase_def lower_def BotFilter_new_def)

lemma chrome_not_bot: "\<not> isBotUserAgent BotFilter_new (JStr chrome_ua)"
proof -
  have "\<not> list_ex (\<lambda>p. str_includes (toLowerCase chrome_ua) p) (map toLowerCase (botPatterns BotFilter_new))"
    unfolding lower_chrome lower_patterns by (simp add: BotFilter_new_def)
  then show ?thesis
    by (simp add: isBotUserAgent_def regex_test_def list_ex_iff chrome_ua_def)
qed

lemma googlebot_is_bot: "isBotUserAgent BotFilter_new (JStr ''Googlebot/2.1'')"
  by (rule isBotUserAgent_match [OF googlebot_in_catalog regex_test_googlebot])

lemma private_ip_not_bot: "isBotIP (JStr ''192.168.1.1'') = Inr False"
  by (simp add: isBotIP_def knownBotIPs_def startsWith_def)

lemma detect_testLogs:
  "map (detect BotFilter_new) testLogs =
     [Inr \<lparr>is_bot = False, confidence = 0, reasons = [], method = None\<rparr>,
      Inr \<lparr>is_bot = False, confidence = 0, reasons = [], method = None\<rparr>,
      Inr \<lparr>is_bot = True, confidence = 95, reasons = [''Bot user-agent detected''],
           method = Some ''user-agent''\<rparr>]"
  by (simp add: testLogs_def detect_def isBot_def isBot_behavior_def
      chrome_not_bot googlebot_is_bot private_ip_not_bot)

lemma returns_testLogs: "list_all (\<lambda>e. returns (detect BotFilter_new e)) testLogs"
proof -
  have "list_all returns (map (detect BotFilter_new) testLogs)"
    unfolding detect_testLogs by (simp add: returns_def)
  then show ?thesis by (simp add: list_all_iff)
qed

theorem filterLogs_partition_witness:
  "list_all (\<lambda>e. returns (detect BotFilter_new e)) testLogs
   \<and> (\<exists>r. filterLogs BotFilter_new testLogs = Inr r
           \<and> FilterResults.total r = length testLogs
           \<and> length (legitimate r) + length (bots r) = length testLogs
           \<and> legitimate r = filter (\<lambda>e. \<not> flagged BotFilter_new e) testLogs
           \<and> map LogEntry.truncate (bots r) = filter (flagged BotFilter_new) testLogs
           \<and> map (\<lambda>b. Inr (botDetection b)) (bots r)
                = map (detect BotFilter_new) (filter (flagged BotFilter_new) testLogs)
           \<and> mset (legitimate r) + mset (map LogEntry.truncate (bots r)) = mset testLogs)"
  using returns_testLogs filterLogs_partition [OF returns_testLogs] by (rule conjI)

section \<open>The behavioural check\<close>

lemma indicate_record:
  "indicate c w r \<lparr>is_bot = b, confidence = n, reasons = rs\<rparr> =
     \<lparr>is_bot = b, confidence = n + (if c then w else 0), reasons = rs @ (if c then [r] else [])\<rparr>"
  by (simp add: indicate_def)

lemma analyzeBehavior_score:
  assumes "headers s = Some h"
  shows "analyzeBehavior BotFilter_new s =
           Inr \<lparr>is_bot = (50 \<le> spec_confidence s h), confidence = spec_confidence s h,
                reasons = spec_reasons s h\<rparr>"
proof -
  have thr: "rapidRequests (suspiciousPatterns BotFilter_new) = 100"
    "shortSessionDuration (suspiciousPatterns BotFilter_new) = 2000"
    by (simp_all add: BotFilter_new_def)
  show ?thesis
    by (simp add: analyzeBehavior_def Let_def assms thr indicate_record
        spec_confidence_def spec_reasons_def split del: if_split)
qed

text \<open>
  C7. For a session summary that carries its \<open>headers\<close> object, \<open>analyzeBehavior\<close>
  reports as confidence the sum of the penalties of the triggered indicators (30, 20, 25,
  25, 15, 10, 10), as reasons the messages of the triggered indicators, and the verdict
  "bot" exactly when that sum is at least 50. When neither the user-agent check nor the IP
  check fires, \<open>isBot\<close> on a request with this session is a bot verdict exactly when the
  sum is at least 50, and then it carries the sum, the reasons and the method
  \<open>behavioral\<close>.
\<close>

theorem behavioral_check:
  assumes "headers s = Some h"
    and "\<not> isBotUserAgent BotFilter_new (userAgent request)"
    and "\<not> truthy (ip request) \<or> isBotIP (ip request) = Inr False"
    and "session request = Some s"
  shows "analyzeBehavior BotFilter_new s =
           Inr \<lparr>is_bot = (50 \<le> spec_confidence s h), confidence = spec_confidence s h,
                reasons = spec_reasons s h\<rparr>
         \<and> isBot BotFilter_new request =
           Inr (if 50 \<le> spec_confidence s h
                then \<lparr>is_bot = True, confidence = spec_confidence s h,
                      reasons = spec_reasons s h, method = Some ''behavioral''\<rparr>
                else \<lparr>is_bot = False, confidence = 0, reasons = [], method = None\<rparr>)"
proof -
  note a = analyzeBehavior_score [OF assms(1)]
  have "isBot BotFilter_new request =
          isBot_behavior BotFilter_new (Some s)
            \<lparr>is_bot = False, confidence = 0, reasons = [], method = None\<rparr>"
    using assms(2,3,4) by (auto simp: isBot_def Let_def)
  also have "\<dots> = Inr (if 50 \<le> spec_confidence s h
                then \<lparr>is_bot = True, confidence = spec_confidence s h,
                      reasons = spec_reasons s h, method = Some ''behavioral''\<rparr>
                else \<lparr>is_bot = False, confidence = 0, reasons = [], method = None\<rparr>)"
    by (simp add: isBot_behavior_def a)
  finally show ?thesis using a by simp
qed

lemma rapid_session_score:
  "spec_confidence rapid_session
     \<lparr>acceptLanguage = JStr ''en'', referer = JStr ''https://example.com/''\<rparr> = 55"
  "spec_reasons rapid_session
     \<lparr>acceptLanguage = JStr ''en'', referer = JStr ''https://example.com/''\<rparr>
     = [''Excessive request rate'', ''No JavaScript execution detected'']"
  by (simp_all add: spec_confidence_def spec_reasons_def rapid_session_def
      js_gt_def js_lt_def js_eq_def)

theorem behavioral_check_witness:
  "headers rapid_session
     = Some \<lparr>acceptLanguage = JStr ''en'', referer = JStr ''https://example.com/''\<rparr>
   \<and> \<not> isBotUserAgent BotFilter_new (JStr chrome_ua)
   \<and> isBotIP (JStr ''192.168.1.1'') = Inr False
   \<and> analyzeBehavior BotFilter_new rapid_session =
         Inr \<lparr>is_bot = True, confidence = 55,
              reasons = [''Excessive request rate'', ''No JavaScript execution detected'']\<rparr>
   \<and> isBot BotFilter_new
         \<lparr>userAgent = JStr chrome_ua, ip = JStr ''192.168.1.1'', session = Some rapid_session\<rparr>
       = Inr \<lparr>is_bot = True, confidence = 55,
              reasons = [''Excessive request rate'', ''No JavaScript execution detected''],
              method = Some ''behavioral''\<rparr>"
proof -
  have h: "headers rapid_session
     = Some \<lparr>acceptLanguage = JStr ''en'', referer = JStr ''https://example.com/''\<rparr>"
    by (simp add: rapid_session_def)
  show ?thesis
    using h chrome_not_bot private_ip_not_bot
      behavioral_check [where request = "\<lparr>userAgent = JStr chrome_ua, ip = JStr ''192.168.1.1'',
        session = Some rapid_session\<rparr>", OF h]
    by (simp add: rapid_session_score)
qed

section \<open>Visitor fingerprints\<close>

text \<open>
  C6. The fingerprint is the digest of the string made of the \<open>ip\<close>, or \<open>unknown\<close>
  when it is falsy, a bar, and the \<open>userAgent\<close>, or \<open>unknown\<close> when it is falsy: non-empty
  strings enter it as they are, \<open>undefined\<close> and \<open>null\<close> both give the digest of
  \<open>unknown|unknown\<close>, and two entries with the same \<open>ip\<close> and \<open>userAgent\<close> have the same
  fingerprint. Nothing but the two arguments and the digest function enters the value.
\<close>

theorem fingerprint_deterministic:
  "createFingerprint md5 ipv ua =
     md5 (ToString (js_or ipv (JStr ''unknown'')) @ ''|'' @ ToString (js_or ua (JStr ''unknown'')))
   \<and> (s \<noteq> [] \<and> u \<noteq> []
        \<longrightarrow> createFingerprint md5 (JStr s) (JStr u) = md5 (s @ ''|'' @ u))
   \<and> createFingerprint md5 JUndefined JUndefined = md5 ''unknown|unknown''
   \<and> createFingerprint md5 JNull JNull = md5 ''unknown|unknown''
   \<and> createFingerprint md5 JUndefined JUndefined = createFingerprint md5 JNull JNull
   \<and> (ip e1 = ip e2 \<and> userAgent e1 = userAgent e2
        \<longrightarrow> fingerprint_of md5 e1 = fingerprint_of md5 e2)"
  by (simp add: createFingerprint_def combined_def js_or_def fingerprint_of_def)

theorem fingerprint_deterministic_witness:
  "\<forall>md5 :: string \<Rightarrow> string.
     ip (testLogs ! 0) = ip (testLogs ! 1)
     \<and> userAgent (testLogs ! 0) = userAgent (testLogs ! 1)
     \<and> fingerprint_of md5 (testLogs ! 0) = fingerprint_of md5 (testLogs ! 1)
     \<and> createFingerprint md5 (JStr ''192.168.1.1'') (JStr chrome_ua)
         = md5 (''192.168.1.1'' @ ''|'' @ chrome_ua)"
proof
  fix md5 :: "string \<Rightarrow> string"
  have same: "ip (testLogs ! 0) = ip (testLogs ! 1)"
    "userAgent (testLogs ! 0) = userAgent (testLogs ! 1)"
    by (simp_all add: testLogs_def)
  have ne: "''192.168.1.1'' \<noteq> []" "chrome_ua \<noteq> []"
    by (simp_all add: chrome_ua_def)
  from same ne
    fingerprint_deterministic [where ?md5.0 = md5 and ?e1.0 = "testLogs ! 0" and ?e2.0 = "testLogs ! 1"
      and s = "''192.168.1.1''" and u = chrome_ua]
  show "ip (testLogs ! 0) = ip (testLogs ! 1)
     \<and> userAgent (testLogs ! 0) = userAgent (testLogs ! 1)
     \<and> fingerprint_of md5 (testLogs ! 0) = fingerprint_of md5 (testLogs ! 1)
     \<and> createFingerprint md5 (JStr ''192.168.1.1'') (JStr chrome_ua)
         = md5 (''192.168.1.1'' @ ''|'' @ chrome_ua)"
    by blast
qed

text \<open>
  C10. A falsy \<open>ip\<close> (the empty string, \<open>null\<close>, \<open>false\<close>, \<open>0\<close>) gives the fingerprint of a
  missing \<open>ip\<close>, and likewise for the \<open>userAgent\<close>: an entry whose \<open>ip\<close> or \<open>userAgent\<close> is
  the empty string is the same visitor as the entry without that field.
\<close>

theorem fingerprint_falsy:
  "(\<not> truthy ipv \<longrightarrow> createFingerprint md5 ipv ua = createFingerprint md5 JUndefined ua)
   \<and> (\<not> truthy ua \<longrightarrow> createFingerprint md5 ipv ua = createFingerprint md5 ipv JUndefined)
   \<and> createFingerprint md5 (JStr '''') ua = createFingerprint md5 JUndefined ua
   \<and> createFingerprint md5 ipv (JStr '''') = createFingerprint md5 ipv JUndefined
   \<and> fingerprint_of md5 (e\<lparr>ip := JStr ''''\<rparr>) = fingerprint_of md5 (e\<lparr>ip := JUndefined\<rparr>)
   \<and> fingerprint_of md5 (e\<lparr>userAgent := JStr ''''\<rparr>)
       = fingerprint_of md5 (e\<lparr>userAgent := JUndefined\<rparr>)"
  by (simp add: createFingerprint_def combined_def js_or_def fingerprint_of_def)

theorem fingerprint_falsy_witness:
  "\<forall>md5 :: string \<Rightarrow> string.
     \<not> truthy (JNum 0) \<and> \<not> truthy (JStr '''')
     \<and> createFingerprint md5 (JNum 0) (JStr chrome_ua) = createFingerprint md5 JUndefined (JStr chrome_ua)
     \<and> createFingerprint md5 (JStr '''') (JStr chrome_ua) = md5 (''unknown|'' @ chrome_ua)
     \<and> createFingerprint md5 (JStr ''192.168.1.1'') (JStr '''')
         = createFingerprint md5 (JStr ''192.168.1.1'') JUndefined"
proof
  fix md5 :: "string \<Rightarrow> string"
  have ua: "chrome_ua \<noteq> []" by (simp add: chrome_ua_def)
  have u: "createFingerprint md5 JUndefined (JStr chrome_ua) = md5 (''unknown|'' @ chrome_ua)"
    using ua by (simp add: createFingerprint_def combined_def js_or_def)
  from fingerprint_falsy [of "JNum 0" md5 "JStr chrome_ua"]
    fingerprint_falsy [of "JStr ''192.168.1.1''" md5 "JStr chrome_ua"] u
  show "\<not> truthy (JNum 0) \<and> \<not> truthy (JStr '''')
     \<and> createFingerprint md5 (JNum 0) (JStr chrome_ua) = createFingerprint md5 JUndefined (JStr chrome_ua)
     \<and> createFingerprint md5 (JStr '''') (JStr chrome_ua) = md5 (''unknown|'' @ chrome_ua)
     \<and> createFingerprint md5 (JStr ''192.168.1.1'') (JStr '''')
         = createFingerprint md5 (JStr ''192.168.1.1'') JUndefined"
    by simp
qed

section \<open>Session reconstruction\<close>

lemma map_insort_key: "map f (insort_key f x xs) = insort (f x) (map f xs)"
  by (induction xs) simp_all

lemma map_sort_key: "map f (sort_key f xs) = sort (map f xs)"
  by (induction xs) (simp_all add: map_insort_key)

lemma spec_sessions_Cons: "\<exists>run runs. spec_sessions T (t # ts) = (t # run) # runs"
proof (induction ts arbitrary: t)
  case Nil
  show ?case by simp
next
  case (Cons u ts)
  from Cons [of u] obtain run runs where "spec_sessions T (u # ts) = (u # run) # runs"
    by blast
  then show ?case by simp
qed

lemma session_loop_spec:
  assumes "session_loop T prev vs (start, pages, tally) = (lastT, start', pages', tally')"
    and "spec_sessions T (prev # map Visit.timestamp vs) = run # runs"
  shows "close_session (lastT - start') pages' tally' =
           \<lparr>totalSessions = totalSessions tally + 1 + length runs,
            sessionDurations = sessionDurations tally @ (last run - start)
               # map (\<lambda>r. last r - hd r) runs,
            pagesPerSession = pagesPerSession tally @ (pages + length run - 1)
               # map length runs\<rparr>"
  using assms
proof (induction vs arbitrary: prev start pages tally run runs)
  case Nil
  then show ?case by (auto simp: close_session_def)
next
  case (Cons v vs)
  obtain r1 rs where R': "spec_sessions T (Visit.timestamp v # map Visit.timestamp vs) = (Visit.timestamp v # r1) # rs"
    using spec_sessions_Cons by blast
  show ?case
  proof (cases "Visit.timestamp v - prev > T")
    case True
    with Cons.prems(1) have loop: "session_loop T (Visit.timestamp v) vs
        (Visit.timestamp v, 1, close_session (prev - start) pages tally) = (lastT, start', pages', tally')"
      by simp
    from True Cons.prems(2) R' have run: "run = [prev]" "runs = (Visit.timestamp v # r1) # rs"
      by simp_all
    from Cons.IH [OF loop R'] show ?thesis
      by (simp add: run close_session_def)
  next
    case False
    with Cons.prems(1) have loop: "session_loop T (Visit.timestamp v) vs
        (start, pages + 1, tally) = (lastT, start', pages', tally')"
      by simp
    from False Cons.prems(2) R' have run: "run = prev # Visit.timestamp v # r1" "runs = rs"
      by simp_all
    from Cons.IH [OF loop R'] show ?thesis
      by (simp add: run)
  qed
qed

lemma visitor_sessions_spec:
  assumes "vs \<noteq> []"
  shows "visitor_sessions T vs tally =
           Inr (tally_append tally (spec_tally T (map Visit.timestamp vs)))"
proof -
  from assms obtain v rest where sorted: "sort_key Visit.timestamp vs = v # rest"
    by (metis length_sort list.exhaust list.size(3) length_0_conv)
  have ts: "sort (map Visit.timestamp vs) = Visit.timestamp v # map Visit.timestamp rest"
    using map_sort_key [of Visit.timestamp vs] sorted by simp
  obtain run runs where R: "spec_sessions T (Visit.timestamp v # map Visit.timestamp rest) = (Visit.timestamp v # run) # runs"
    using spec_sessions_Cons by blast
  obtain lastT start' pages' tally' where loop:
    "session_loop T (Visit.timestamp v) rest (Visit.timestamp v, 1, tally) = (lastT, start', pages', tally')"
    by (metis prod_cases4)
  have "visitor_sessions T vs tally = Inr (close_session (lastT - start') pages' tally')"
    unfolding visitor_sessions_def sorted list.case loop by simp
  also have "close_session (lastT - start') pages' tally' =
      tally_append tally (spec_tally T (map Visit.timestamp vs))"
    unfolding session_loop_spec [OF loop R]
    by (simp add: spec_tally_def ts R tally_append_def)
  finally show ?thesis .
qed

lemma forEach_visitor_spec:
  assumes "list_all (\<lambda>vs. vs \<noteq> []) groups"
  shows "forEach_visitor T groups tally =
           Inr (fold (\<lambda>vs t. tally_append t (spec_tally T (map Visit.timestamp vs))) groups tally)"
  using assms
  by (induction groups arbitrary: tally) (auto simp: visitor_sessions_spec)


lemma push_visit_keys: "map fst (push_visit k v m) = (if k \<in> fst ` set m then map fst m else map fst m @ [k])"
  by (induction m) (auto split: if_splits)

lemma push_visit_map_of:
  "map_of (push_visit k v m) =
     (map_of m)(k \<mapsto> (case map_of m k of None \<Rightarrow> [v] | Some vs \<Rightarrow> vs @ [v]))"
  by (induction m) (auto simp: fun_eq_iff)

lemma push_visit_nonempty:
  "list_all (\<lambda>vs. vs \<noteq> []) (map snd m) \<Longrightarrow>
     list_all (\<lambda>vs. vs \<noteq> []) (map snd (push_visit k v m))"
  by (induction m) (auto split: if_splits)

lemma fold_push_distinct:
  "distinct (map fst m) \<Longrightarrow>
     distinct (map fst (fold (\<lambda>entry m. push_visit (f entry) (g entry) m) entries m))"
  by (induction entries arbitrary: m) (auto simp: push_visit_keys)

lemma fold_push_nonempty:
  "list_all (\<lambda>vs. vs \<noteq> []) (map snd m) \<Longrightarrow>
     list_all (\<lambda>vs. vs \<noteq> [])
       (map snd (fold (\<lambda>entry m. push_visit (f entry) (g entry) m) entries m))"
  by (induction entries arbitrary: m) (simp_all add: push_visit_nonempty)

lemma fold_push_map_of:
  "map_of (fold (\<lambda>entry m. push_visit (f entry) (g entry) m) entries m) k =
     (case map_of m k of
        None \<Rightarrow> (case filter (\<lambda>e. f e = k) entries of [] \<Rightarrow> None | es \<Rightarrow> Some (map g es))
      | Some vs \<Rightarrow> Some (vs @ map g (filter (\<lambda>e. f e = k) entries)))"
proof (induction entries arbitrary: m)
  case Nil
  show ?case by (simp split: option.splits)
next
  case (Cons e entries)
  show ?case
    by (simp add: Cons.IH push_visit_map_of split: option.splits list.splits)
qed


lemma visitorSessions_nonempty:
  "list_all (\<lambda>vs. vs \<noteq> []) (map snd (visitorSessions md5 entries))"
  unfolding visitorSessions_def by (rule fold_push_nonempty) simp

lemma session_tally_spec:
  "session_tally this md5 entries =
     Inr (fold (\<lambda>vs t. tally_append t (spec_tally (sessionTimeout this) (map Visit.timestamp vs)))
            (map snd (visitorSessions md5 entries)) no_sessions)"
  unfolding session_tally_def no_sessions_def [symmetric]
  by (rule forEach_visitor_spec [OF visitorSessions_nonempty])

lemma visitorSessions_one_visitor:
  assumes "list_all (\<lambda>e. fingerprint_of md5 e = k) (e # entries)"
  shows "visitorSessions md5 (e # entries) = [(k, map visit_of (e # entries))]"
proof -
  have "fold (\<lambda>entry m. push_visit (fingerprint_of md5 entry) (visit_of entry) m) entries [(k, vs)]
          = [(k, vs @ map visit_of entries)]"
    if "list_all (\<lambda>e. fingerprint_of md5 e = k) entries" for vs entries
    using that by (induction entries arbitrary: vs) simp_all
  from this [of entries "[visit_of e]"] assms show ?thesis
    by (simp add: visitorSessions_def)
qed

lemma tally_append_no_sessions: "tally_append no_sessions t = t"
  by (cases t) (simp add: tally_append_def no_sessions_def)

lemma session_tally_one_visitor:
  assumes "list_all (\<lambda>e. fingerprint_of md5 e = k) (e # entries)"
  shows "session_tally this md5 (e # entries) =
           Inr (spec_tally (sessionTimeout this) (map timestamp (e # entries)))"
proof -
  have ts: "map Visit.timestamp (map visit_of (e # entries)) = map timestamp (e # entries)"
    by (simp add: visit_of_def)
  have "session_tally this md5 (e # entries) =
      Inr (tally_append no_sessions
             (spec_tally (sessionTimeout this) (map Visit.timestamp (map visit_of (e # entries)))))"
    unfolding session_tally_spec visitorSessions_one_visitor [OF assms] by simp
  then show ?thesis
    by (simp only: ts tally_append_no_sessions)
qed

lemma fingerprint_of_visit_at:
  "fingerprint_of md5 (visit_at t) = createFingerprint md5 (JStr ''192.168.1.1'') (JStr chrome_ua)"
  by (simp add: fingerprint_of_def visit_at_def)

lemma timestamp_visit_at: "timestamp (visit_at t) = t"
  by (simp add: visit_at_def)

lemma timeout_new: "sessionTimeout (AnalyticsReconstructor_new bf) = 1800000"
  by (simp add: AnalyticsReconstructor_new_def)

lemma session_tally_threeVisits:
  "session_tally (AnalyticsReconstructor_new bf) md5 threeVisits =
     Inr \<lparr>totalSessions = 2, sessionDurations = [600000, 0], pagesPerSession = [2, 1]\<rparr>"
proof -
  have "list_all (\<lambda>e. fingerprint_of md5 e
            = createFingerprint md5 (JStr ''192.168.1.1'') (JStr chrome_ua)) threeVisits"
    by (simp add: threeVisits_def fingerprint_of_visit_at)
  then show ?thesis
    unfolding threeVisits_def
    by (simp add: session_tally_one_visitor timestamp_visit_at timeout_new spec_tally_def)
qed

text \<open>
  C3. The visitors are the distinct fingerprints, and the visits of a visitor are the
  entries with its fingerprint, in input order. The tally of sessions is, visitor by
  visitor, that of the maximal runs of the visitor's timestamps, sorted ascending, in which
  consecutive events are at most \<open>sessionTimeout\<close> apart: one session per run, of duration
  last minus first and of page count the length of the run. Two events of one visitor
  that are \<open>d\<close> apart are two sessions when \<open>d\<close> is greater than the timeout and one session
  otherwise, so also for \<open>d = 0\<close> and for \<open>d\<close> equal to the timeout. One visitor with events
  at 0, 10 and 45 minutes has two sessions: one of duration 10 minutes with 2 pages, one of
  duration 0 with 1 page.
\<close>

theorem session_reconstruction:
  "distinct (map fst (visitorSessions md5 entries))
   \<and> map_of (visitorSessions md5 entries) k =
       (case filter (\<lambda>e. fingerprint_of md5 e = k) entries of
          [] \<Rightarrow> None
        | es \<Rightarrow> Some (map visit_of es))
   \<and> session_tally this md5 entries =
       Inr (fold (\<lambda>vs t. tally_append t
                    (spec_tally (sessionTimeout this) (map Visit.timestamp vs)))
              (map snd (visitorSessions md5 entries)) no_sessions)
   \<and> (0 \<le> d \<longrightarrow>
        session_tally this md5 [e\<lparr>timestamp := t\<rparr>, e\<lparr>timestamp := t + d\<rparr>] =
          Inr (if d > sessionTimeout this
               then \<lparr>totalSessions = 2, sessionDurations = [0, 0], pagesPerSession = [1, 1]\<rparr>
               else \<lparr>totalSessions = 1, sessionDurations = [d], pagesPerSession = [2]\<rparr>))
   \<and> session_tally (AnalyticsReconstructor_new bf) md5 threeVisits =
       Inr \<lparr>totalSessions = 2, sessionDurations = [600000, 0], pagesPerSession = [2, 1]\<rparr>"
proof -
  have keys: "distinct (map fst (visitorSessions md5 entries))"
    unfolding visitorSessions_def by (rule fold_push_distinct) simp
  have groups: "map_of (visitorSessions md5 entries) k =
       (case filter (\<lambda>e. fingerprint_of md5 e = k) entries of
          [] \<Rightarrow> None
        | es \<Rightarrow> Some (map visit_of es))"
    unfolding visitorSessions_def fold_push_map_of by simp
  have two: "session_tally this md5 [e\<lparr>timestamp := t\<rparr>, e\<lparr>timestamp := t + d\<rparr>] =
          Inr (if d > sessionTimeout this
               then \<lparr>totalSessions = 2, sessionDurations = [0, 0], pagesPerSession = [1, 1]\<rparr>
               else \<lparr>totalSessions = 1, sessionDurations = [d], pagesPerSession = [2]\<rparr>)"
    if "0 \<le> d"
  proof -
    have "list_all (\<lambda>x. fingerprint_of md5 x = fingerprint_of md5 e)
            [e\<lparr>timestamp := t\<rparr>, e\<lparr>timestamp := t + d\<rparr>]"
      by (simp add: fingerprint_of_def)
    from session_tally_one_visitor [OF this] that show ?thesis
      by (simp add: spec_tally_def)
  qed
  show ?thesis
    by (intro conjI impI, rule keys, rule groups, rule session_tally_spec, erule two,
        rule session_tally_threeVisits)
qed

section \<open>The arithmetic of doubles\<close>

lemma ilog2_bounds:
  assumes "0 < r"
  shows "2 powi (ilog2 r) \<le> r" and "r < 2 powi (ilog2 r + 1)"
proof -
  have "2 powi (ilog2 r) \<le> r \<and> r < 2 powi (ilog2 r + 1)"
  proof (cases "1 \<le> r")
    case True
    define k where "k = \<lfloor>r\<rfloor>"
    have k: "0 < k" using True by (simp add: k_def)
    from bitlen_bounds [OF k] have b: "2 ^ nat (bitlen k - 1) \<le> k" "k < 2 ^ nat (bitlen k)"
      by simp_all
    have bl: "1 \<le> bitlen k" using k by (simp add: bitlen_alt_def)
    have "(2::rat) powi (bitlen k - 1) = 2 ^ nat (bitlen k - 1)"
      using bl by (simp add: power_int_nonneg_exp)
    also have "\<dots> = of_int (2 ^ nat (bitlen k - 1))" by simp
    also have "\<dots> \<le> of_int k" using b(1) by (simp only: of_int_le_iff)
    also have "\<dots> \<le> r" by (simp add: k_def)
    finally have lo: "2 powi (bitlen k - 1) \<le> r" .
    have "k + 1 \<le> 2 ^ nat (bitlen k)" using b(2) by simp
    then have "(of_int (k + 1) :: rat) \<le> of_int (2 ^ nat (bitlen k))"
      by (simp only: of_int_le_iff)
    moreover have "r < of_int (k + 1)" by (simp add: k_def) linarith
    ultimately have "r < of_int (2 ^ nat (bitlen k))" by linarith
    also have "\<dots> = 2 powi (bitlen k)"
      using bl by (simp add: power_int_nonneg_exp)
    finally have hi: "r < 2 powi (bitlen k - 1 + 1)" by simp
    from lo hi True show ?thesis by (simp add: ilog2_def k_def)
  next
    case False
    define x where "x = 1 / r"
    have x: "1 < x" using False assms by (simp add: x_def)
    define j where "j = \<lceil>x\<rceil> - 1"
    have j: "0 < j" using x by (simp add: j_def)
    from bitlen_bounds [OF j] have b: "2 ^ nat (bitlen j - 1) \<le> j" "j < 2 ^ nat (bitlen j)"
      by simp_all
    have bl: "1 \<le> bitlen j" using j by (simp add: bitlen_alt_def)
    have "x \<le> of_int (j + 1)" by (simp add: j_def)
    also have "(of_int (j + 1) :: rat) \<le> of_int (2 ^ nat (bitlen j))"
      using b(2) by (simp only: of_int_le_iff)
    also have "\<dots> = 2 ^ nat (bitlen j)" by simp
    finally have xu: "x \<le> 2 ^ nat (bitlen j)" .
    have "(2::rat) ^ nat (bitlen j - 1) = of_int (2 ^ nat (bitlen j - 1))" by simp
    also have "\<dots> \<le> of_int j"
      using b(1) by (simp only: of_int_le_iff)
    also have "\<dots> < x" by (simp add: j_def) linarith
    finally have xl: "2 ^ nat (bitlen j - 1) < x" .
    have r: "r = 1 / x" using assms by (simp add: x_def)
    have p1: "(2::rat) powi (- bitlen j) = 1 / 2 ^ nat (bitlen j)"
      using bl by (simp add: power_int_minus power_int_nonneg_exp field_simps)
    have p2: "(2::rat) powi (- bitlen j + 1) = 1 / 2 ^ nat (bitlen j - 1)"
    proof -
      have "- bitlen j + 1 = - (bitlen j - 1)" by simp
      then show ?thesis
        using bl by (simp only: power_int_minus) (simp add: power_int_nonneg_exp field_simps)
    qed
    have lo: "2 powi (- bitlen j) \<le> r"
      unfolding p1 r using xu x by (simp add: field_simps)
    have hi: "r < 2 powi (- bitlen j + 1)"
      unfolding p2 r using xl x by (simp add: field_simps)
    from lo hi False show ?thesis by (simp add: ilog2_def x_def j_def)
  qed
  then show "2 powi (ilog2 r) \<le> r" and "r < 2 powi (ilog2 r + 1)" by simp_all
qed

lemma ilog2_unique:
  assumes "2 powi k \<le> r" and "r < 2 powi (k + 1)"
  shows "ilog2 r = k"
proof -
  have "(0::rat) < 2 powi k" by simp
  with assms(1) have r: "0 < r" by linarith
  note b = ilog2_bounds [OF r]
  have lt: "a < b" if "(2::rat) powi a < 2 powi b" for a b :: int
  proof (rule ccontr)
    assume "\<not> a < b"
    then have "(2::rat) powi b \<le> 2 powi a" by (intro power_int_increasing) simp_all
    with that show False by simp
  qed
  have "(2::rat) powi (ilog2 r) < 2 powi (k + 1)" using b(1) assms(2) by simp
  then have 1: "ilog2 r < k + 1" by (rule lt)
  have "(2::rat) powi k < 2 powi (ilog2 r + 1)" using b(2) assms(1) by simp
  then have 2: "k < ilog2 r + 1" by (rule lt)
  from 1 2 show ?thesis by simp
qed

lemma round_half_even_error: "\<bar>of_int (round_half_even x) - x\<bar> \<le> 1 / 2"
proof -
  have "of_int \<lfloor>x\<rfloor> \<le> x" "x < of_int \<lfloor>x\<rfloor> + 1" by linarith+
  then show ?thesis
    unfolding round_half_even_def Let_def by (simp add: abs_if) linarith
qed

lemma round_half_even_int: "round_half_even (of_int k) = k"
  by (simp add: round_half_even_def)

text \<open>The rounding of a quotient of integers, on integers.\<close>

lemma round_half_even_divide:
  assumes "0 < b"
  shows "round_half_even (of_int a / of_int b) =
           (if 2 * (a mod b) < b then a div b
            else if b < 2 * (a mod b) then a div b + 1
            else if even (a div b) then a div b else a div b + 1)"
proof -
  have f: "\<lfloor>(of_int a / of_int b :: rat)\<rfloor> = a div b"
    by (rule floor_divide_of_int_eq)
  have "(of_int a :: rat) = of_int (a div b * b + a mod b)" by simp
  also have "\<dots> = of_int (a div b) * of_int b + of_int (a mod b)"
    by (simp only: of_int_add of_int_mult)
  finally have d: "(of_int a / of_int b :: rat) - of_int (a div b) = of_int (a mod b) / of_int b"
    using assms by (simp add: field_simps)
  have 1: "(of_int (a mod b) / of_int b < (1 / 2 :: rat)) = (2 * (a mod b) < b)"
  proof -
    have "(of_int (a mod b) / of_int b < (1 / 2 :: rat))
            = ((of_int (2 * (a mod b)) :: rat) < of_int b)"
      using assms by (simp add: field_simps)
    then show ?thesis by (simp only: of_int_less_iff)
  qed
  have 2: "((1 / 2 :: rat) < of_int (a mod b) / of_int b) = (b < 2 * (a mod b))"
  proof -
    have "((1 / 2 :: rat) < of_int (a mod b) / of_int b)
            = ((of_int b :: rat) < of_int (2 * (a mod b)))"
      using assms by (simp add: field_simps)
    then show ?thesis by (simp only: of_int_less_iff)
  qed
  show ?thesis
    unfolding round_half_even_def Let_def f d 1 2 ..
qed

lemma round53_zero: "round53 0 = 0"
  by (simp add: round53_def)

text \<open>With the binary exponent \<open>k\<close> of \<open>r\<close> known, \<open>round53\<close> rounds \<open>r\<close> in units of \<open>2^(k-52)\<close>.\<close>

lemma round53_eval:
  assumes "2 powi k \<le> r" and "r < 2 powi (k + 1)"
  shows "round53 r = of_int (round_half_even (r / 2 powi (k - 52))) * 2 powi (k - 52)"
proof -
  have "(0::rat) < 2 powi k" by simp
  with assms(1) have r: "0 < r" by linarith
  have "ilog2 r = k" using assms by (rule ilog2_unique)
  with r show ?thesis by (simp add: round53_def Let_def)
qed

text \<open>The relative error of one rounding is at most \<open>2^-53\<close>.\<close>

lemma round53_error:
  assumes "0 < r"
  shows "\<bar>round53 r - r\<bar> \<le> r / 2 ^ 53"
proof -
  define k where "k = ilog2 r"
  define p :: rat where "p = 2 powi (k - 52)"
  define m where "m = r / p"
  have p: "0 < p" by (simp add: p_def)
  have lo: "2 powi k \<le> r" and hi: "r < 2 powi (k + 1)"
    using ilog2_bounds [OF assms] by (simp_all add: k_def)
  have "round53 r = of_int (round_half_even m) * p"
    using round53_eval [OF lo hi] by (simp add: m_def p_def)
  moreover have "r = m * p" using p by (simp add: m_def)
  ultimately have "round53 r - r = (of_int (round_half_even m) - m) * p"
    by (simp add: algebra_simps)
  then have "\<bar>round53 r - r\<bar> = \<bar>of_int (round_half_even m) - m\<bar> * p"
    using p by (simp add: abs_mult)
  also have "\<dots> \<le> 1 / 2 * p"
    using round_half_even_error [of m] p by (intro mult_right_mono) simp_all
  also have "\<dots> = 2 powi k / 2 ^ 53"
    by (simp add: p_def power_int_diff)
  also have "\<dots> \<le> r / 2 ^ 53"
    using lo by (simp add: divide_right_mono)
  finally show ?thesis .
qed

lemma round53_pos:
  assumes "0 < r"
  shows "0 < round53 r"
proof -
  have "r / 2 ^ 53 < r" using assms by (simp add: field_simps)
  with round53_error [OF assms] show ?thesis by (simp add: abs_if split: if_splits)
qed

text \<open>A number with a significand of at most 53 bits is a double: rounding leaves it.\<close>

lemma round53_dyadic:
  assumes "0 < i" and "i < 2 ^ 53"
  shows "round53 (of_int i * 2 powi j) = of_int i * 2 powi j"
proof -
  define r :: rat where "r = of_int i * 2 powi j"
  define k where "k = ilog2 r"
  have r: "0 < r" using assms(1) by (simp add: r_def)
  have lo: "2 powi k \<le> r" and hi: "r < 2 powi (k + 1)"
    using ilog2_bounds [OF r] by (simp_all add: k_def)
  have "(of_int i :: rat) < of_int (2 ^ 53)" using assms(2) by (simp only: of_int_less_iff)
  then have "r < 2 ^ 53 * 2 powi j" by (simp add: r_def)
  also have "\<dots> = 2 powi (53 + j)" by (simp add: power_int_add)
  finally have a: "(2::rat) powi k < 2 powi (53 + j)" using lo by simp
  have "k < 53 + j"
  proof (rule ccontr)
    assume "\<not> k < 53 + j"
    then have "(2::rat) powi (53 + j) \<le> 2 powi k" by (intro power_int_increasing) simp_all
    with a show False by simp
  qed
  then have e: "0 \<le> j - (k - 52)" by simp
  define n where "n = nat (j - (k - 52))"
  have "r / 2 powi (k - 52) = of_int i * 2 powi (j - (k - 52))"
    by (simp add: r_def power_int_diff)
  also have "\<dots> = of_int i * 2 ^ n"
    using e by (simp add: n_def power_int_def)
  also have "\<dots> = of_int (i * 2 ^ n)" by simp
  finally have "round_half_even (r / 2 powi (k - 52)) = i * 2 ^ n"
    by (simp only: round_half_even_int)
  with round53_eval [OF lo hi]
  have "round53 r = of_int (i * 2 ^ n) * 2 powi (k - 52)" by simp
  also have "\<dots> = of_int i * (2 powi (j - (k - 52)) * 2 powi (k - 52))"
    using e by (simp add: n_def power_int_def)
  also have "2 powi (j - (k - 52)) * 2 powi (k - 52) = (2::rat) powi j"
    by (simp add: power_int_diff)
  finally show ?thesis by (simp add: r_def)
qed

lemma round53_of_int:
  assumes "0 \<le> i" and "i < 2 ^ 53"
  shows "round53 (of_int i) = of_int i"
proof (cases "i = 0")
  case True
  then show ?thesis by (simp add: round53_zero)
next
  case False
  with assms have "0 < i" by simp
  from round53_dyadic [OF this assms(2), of 0] show ?thesis by simp
qed

lemma round53_numeral:
  "numeral w < (2 ^ 53 :: int) \<Longrightarrow> round53 (numeral w) = numeral w"
  using round53_of_int [of "numeral w"] by simp

lemma floor_round53_small:
  assumes "0 \<le> r" and "r \<le> 1 / 2"
  shows "\<lfloor>round53 r\<rfloor> = 0"
proof (cases "r = 0")
  case True
  then show ?thesis by (simp add: round53_zero)
next
  case False
  with assms have r: "0 < r" by simp
  have "r / 2 ^ 53 \<le> r" using r by (simp add: field_simps)
  with round53_error [OF r] assms(2) have "round53 r < 1"
    by (simp add: abs_if split: if_splits)
  moreover have "0 < round53 r" by (rule round53_pos [OF r])
  ultimately show ?thesis by (simp add: floor_eq_iff)
qed

text \<open>
  The double of a quotient of integers \<open>a / b\<close> with \<open>2^(52-s) \<le> a / b < 2^(53-s)\<close>, by
  integer arithmetic.
\<close>

lemma round53_divide:
  assumes "0 < b" and "2 ^ 52 * b \<le> a * 2 ^ s" and "a * 2 ^ s < 2 ^ 53 * b"
  shows "round53 (of_int a / of_int b)
           = of_int (round_half_even (of_int (a * 2 ^ s) / of_int b)) / 2 ^ s"
proof -
  define r :: rat where "r = of_int a / of_int b"
  have b: "(0::rat) < of_int b" using assms(1) by simp
  have p: "(2::rat) powi (52 - int s) = 2 ^ 52 / 2 ^ s"
    by (simp add: power_int_diff)
  have p1: "(2::rat) powi (52 - int s + 1) = 2 ^ 53 / 2 ^ s"
  proof -
    have "52 - int s + 1 = 53 - int s" by simp
    then show ?thesis by (simp add: power_int_diff)
  qed
  have m: "(2::rat) powi (52 - int s - 52) = 1 / 2 ^ s"
    by (simp add: power_int_minus_divide)
  have "(of_int (2 ^ 52 * b) :: rat) \<le> of_int (a * 2 ^ s)"
    using assms(2) by (simp only: of_int_le_iff)
  then have lo: "2 powi (52 - int s) \<le> r"
    unfolding p r_def using b by (simp add: field_simps)
  have "(of_int (a * 2 ^ s) :: rat) < of_int (2 ^ 53 * b)"
    using assms(3) by (simp only: of_int_less_iff)
  then have hi: "r < 2 powi (52 - int s + 1)"
    unfolding p1 r_def using b by (simp add: field_simps)
  have "r / (1 / 2 ^ s) = of_int (a * 2 ^ s) / of_int b"
    by (simp add: r_def)
  with round53_eval [OF lo hi] show ?thesis
    unfolding m r_def by simp
qed

text \<open>
  \<open>(b / n) * 100\<close> printed by \<open>toFixed(2)\<close>: the two roundings move the percentage by less
  than \<open>10^-11\<close>, so the hundredths printed are within a half of \<open>10000 * b / n\<close>.
\<close>

lemma percent_hundredths:
  assumes n: "0 < n" "n < 2 ^ 32" and b: "b \<le> n"
  defines "x \<equiv> round53 (round53 (of_nat b / of_nat n) * 100)"
  shows "0 \<le> x"
    and "2 * \<bar>\<lfloor>x * 100 + 1 / 2\<rfloor> * int n - 10000 * int b\<bar> \<le> int n"
proof -
  define q :: rat where "q = of_nat b / of_nat n"
  define x1 where "x1 = round53 q"
  define h where "h = \<lfloor>x * 100 + 1 / 2\<rfloor>"
  have x: "x = round53 (x1 * 100)" by (simp add: x_def x1_def q_def)
  have q1: "q \<le> 1" using n b by (simp add: q_def)
  have q0: "0 \<le> q" by (simp add: q_def)
  have hx: "\<bar>of_int h - x * 100\<bar> \<le> 1 / 2"
  proof -
    have "of_int h \<le> x * 100 + 1 / 2" "x * 100 + 1 / 2 < of_int h + 1"
      unfolding h_def by linarith+
    then show ?thesis by (simp add: abs_if)
  qed
  have bound: "0 \<le> x \<and> \<bar>x * 100 - 10000 * q\<bar> \<le> 30000 / 2 ^ 53"
  proof (cases "b = 0")
    case True
    then have "q = 0" by (simp add: q_def)
    then have "x = 0" by (simp add: x x1_def round53_zero)
    with \<open>q = 0\<close> show ?thesis by simp
  next
    case False
    then have qpos: "0 < q" using n by (simp add: q_def)
    have e1: "\<bar>x1 - q\<bar> \<le> q / 2 ^ 53" unfolding x1_def by (rule round53_error [OF qpos])
    have x1pos: "0 < x1" unfolding x1_def by (rule round53_pos [OF qpos])
    then have p: "0 < x1 * 100" by simp
    have e2: "\<bar>x - x1 * 100\<bar> \<le> x1 * 100 / 2 ^ 53" unfolding x by (rule round53_error [OF p])
    have xpos: "0 < x" unfolding x by (rule round53_pos [OF p])
    have "x1 \<le> 2" using e1 q1 q0 by (simp add: abs_if split: if_splits)
    with e1 e2 q1 q0 xpos show ?thesis by (simp add: abs_if split: if_splits)
  qed
  then show "0 \<le> x" by simp
  from bound hx have D: "\<bar>of_int h - 10000 * q\<bar> \<le> 1 / 2 + 30000 / 2 ^ 53"
    by (simp add: abs_if split: if_splits)
  have npos: "(0::rat) < of_nat n" using n by simp
  have "(of_int (h * int n - 10000 * int b) :: rat) = (of_int h - 10000 * q) * of_nat n"
    using n by (simp add: q_def field_simps)
  then have "\<bar>of_int (h * int n - 10000 * int b) :: rat\<bar> = \<bar>of_int h - 10000 * q\<bar> * of_nat n"
    by (simp add: abs_mult)
  also have "\<dots> \<le> (1 / 2 + 30000 / 2 ^ 53) * of_nat n"
    using D npos by (intro mult_right_mono) simp_all
  finally have "2 * \<bar>of_int (h * int n - 10000 * int b) :: rat\<bar>
                  \<le> of_nat n + 60000 * of_nat n / 2 ^ 53"
    by (simp add: algebra_simps)
  moreover have "(of_nat n :: rat) < of_nat (2 ^ 32)" using n(2) by (simp only: of_nat_less_iff)
  then have "60000 * (of_nat n :: rat) / 2 ^ 53 < 1" by simp
  ultimately have "2 * \<bar>of_int (h * int n - 10000 * int b) :: rat\<bar> < of_nat n + 1" by linarith
  then have "(of_int (2 * \<bar>h * int n - 10000 * int b\<bar>) :: rat) < of_int (int n + 1)"
    by simp
  then have "2 * \<bar>h * int n - 10000 * int b\<bar> < int n + 1"
    by (simp only: of_int_less_iff)
  then show "2 * \<bar>\<lfloor>x * 100 + 1 / 2\<rfloor> * int n - 10000 * int b\<bar> \<le> int n"
    by (simp add: h_def)
qed

text \<open>Unless \<open>10000 * b / n\<close> lies halfway between two integers, one integer is within a half of it.\<close>

lemma nearest_hundredth:
  fixes h n b :: nat
  assumes "0 < n" and "2 * \<bar>int h * int n - 10000 * int b\<bar> \<le> int n"
    and "(20000 * b) mod (2 * n) \<noteq> n"
  shows "h = (2 * (10000 * b) + n) div (2 * n)"
proof -
  define H where "H = (2 * (10000 * b) + n) div (2 * n)"
  define R where "R = (2 * (10000 * b) + n) mod (2 * n)"
  have eq: "2 * (10000 * b) + n = H * (2 * n) + R"
    unfolding H_def R_def by (rule div_mult_mod_eq [symmetric])
  have R: "R < 2 * n" using assms(1) by (simp add: R_def)
  have R0: "R \<noteq> 0"
  proof
    assume "R = 0"
    then have "(20000 * b + n) mod (2 * n) = 0" by (simp add: R_def)
    then have "2 * n dvd 20000 * b + n" by (simp add: dvd_eq_mod_eq_0)
    then obtain c where c: "20000 * b + n = 2 * n * c" by (auto simp: dvd_def)
    then have "0 < c" using assms(1) by (cases c) simp_all
    then obtain c' where c': "c = Suc c'" by (cases c) simp_all
    from c c' have "20000 * b = n + 2 * n * c'" by simp
    then have "(20000 * b) mod (2 * n) = n" using assms(1) by simp
    with assms(3) show False by simp
  qed
  have le: "2 * (int h * int n) \<le> 20000 * int b + int n"
    and ge: "20000 * int b \<le> 2 * (int h * int n) + int n"
    using assms(2) by (simp_all add: abs_if split: if_splits)
  have "int (2 * (10000 * b) + n) = int (H * (2 * n) + R)"
    by (simp only: eq)
  then have eqi: "20000 * int b + int n = int H * (2 * int n) + int R"
    by simp
  have npos: "0 < int n" using assms(1) by simp
  have "int h * (2 * int n) < (int H + 1) * (2 * int n)"
    using le eqi R by (simp add: algebra_simps)
  then have 1: "int h < int H + 1" using npos by (simp add: mult_less_cancel_right)
  have "int H * (2 * int n) < (int h + 1) * (2 * int n)"
    using ge eqi R0 by (simp add: algebra_simps)
  then have 2: "int H < int h + 1" using npos by (simp add: mult_less_cancel_right)
  from 1 2 show ?thesis by (simp add: H_def)
qed

section \<open>The bounce rate\<close>

lemma round_ratio:
  assumes "0 < n"
  shows "nat \<lfloor>(of_nat a / of_nat n :: rat) * 100 + 1 / 2\<rfloor> = (2 * (100 * a) + n) div (2 * n)"
proof -
  have "(of_nat a / of_nat n :: rat) * 100 + 1 / 2 = of_nat (2 * (100 * a) + n) / of_nat (2 * n)"
    using assms by (simp add: field_simps)
  then show ?thesis
    by (simp only: floor_divide_of_nat_eq nat_int)
qed

lemma fixed2_ratio:
  assumes "0 < n"
  shows "fixed2 (of_nat a / of_nat n) =
           (let h = (2 * (100 * a) + n) div (2 * n)
            in dec (h div 100) @ ''.'' @ [digit (h mod 100 div 10), digit (h mod 10)])"
  unfolding fixed2_def round_ratio [OF assms] ..

lemma count_filter_one: "length (filter (\<lambda>pages. pages = 1) pps) = count_list pps 1"
  by (induction pps) simp_all

lemma calculateBounceRate_hundredths:
  assumes "pps \<noteq> []" and "length pps < 2 ^ 32"
  shows "\<exists>h. calculateBounceRate pps
               = dec (h div 100) @ ''.'' @ [digit (h mod 100 div 10), digit (h mod 10)]
             \<and> 2 * \<bar>int h * int (length pps) - 10000 * int (count_list pps 1)\<bar>
                 \<le> int (length pps)"
proof -
  define n where "n = length pps"
  define b where "b = count_list pps 1"
  define x where "x = round53 (round53 (of_nat b / of_nat n) * 100)"
  define h where "h = nat \<lfloor>x * 100 + 1 / 2\<rfloor>"
  have n: "0 < n" "n < 2 ^ 32" using assms by (simp_all add: n_def)
  have b: "b \<le> n" unfolding b_def n_def by (rule count_le_length)
  note ph = percent_hundredths [OF n b, folded x_def]
  have "0 \<le> \<lfloor>x * 100 + 1 / 2\<rfloor>" using ph(1) by simp
  then have hI: "int h = \<lfloor>x * 100 + 1 / 2\<rfloor>" by (simp add: h_def)
  have "calculateBounceRate pps = toFixed2 (js_times (js_div b n) 100)"
    by (simp only: calculateBounceRate_def Let_def count_filter_one b_def n_def)
  also have "\<dots> = toFixed2 (Fin x)"
    using n by (simp add: js_div_def x_def)
  also have "\<dots> = fixed2 x" using ph(1) by simp
  also have "\<dots> = dec (h div 100) @ ''.'' @ [digit (h mod 100 div 10), digit (h mod 10)]"
    by (simp only: fixed2_def Let_def h_def)
  finally have 1: "calculateBounceRate pps
      = dec (h div 100) @ ''.'' @ [digit (h mod 100 div 10), digit (h mod 10)]" .
  have 2: "2 * \<bar>int h * int (length pps) - 10000 * int (count_list pps 1)\<bar> \<le> int (length pps)"
    using ph(2) unfolding hI n_def b_def .
  from 1 2 show ?thesis by blast
qed

lemma calculateBounceRate_spec:
  assumes "pps \<noteq> []" and "length pps < 2 ^ 32"
    and "(20000 * count_list pps 1) mod (2 * length pps) \<noteq> length pps"
  shows "calculateBounceRate pps = spec_bounce_rate pps"
proof -
  from calculateBounceRate_hundredths [OF assms(1,2)] obtain h where
    h: "calculateBounceRate pps
         = dec (h div 100) @ ''.'' @ [digit (h mod 100 div 10), digit (h mod 10)]"
    and d: "2 * \<bar>int h * int (length pps) - 10000 * int (count_list pps 1)\<bar>
             \<le> int (length pps)"
    by blast
  have "0 < length pps" using assms(1) by simp
  from nearest_hundredth [OF this d assms(3)] h show ?thesis
    by (simp add: spec_bounce_rate_def Let_def)
qed



text \<open>
  A percentage halfway between two hundredths: 23 sessions of one page among 160 are
  14.375 percent. The double of \<open>23 / 160\<close> is below \<open>0.14375\<close>, its product with 100 rounds
  to the double just below \<open>14.375\<close>, and \<open>toFixed(2)\<close> prints \<open>14.37\<close>, where rounding the
  percentage half up gives \<open>14.38\<close>.
\<close>

lemma round53_23_160: "round53 (23 / 160) = 5179139571476070 / 2 ^ 55"
proof -
  have "round53 (of_int 23 / of_int 160)
          = of_int (round_half_even (of_int (23 * 2 ^ 55) / of_int 160)) / 2 ^ 55"
    by (rule round53_divide) simp_all
  also have "round_half_even (of_int (23 * 2 ^ 55) / of_int 160) = 5179139571476070"
    by (subst round_half_even_divide) simp_all
  finally show ?thesis by simp
qed

lemma round53_14375: "round53 (5179139571476070 / 2 ^ 55 * 100) = 8092405580431359 / 2 ^ 49"
proof -
  have "round53 (of_int (5179139571476070 * 100) / of_int (2 ^ 55))
          = of_int (round_half_even (of_int (5179139571476070 * 100 * 2 ^ 49) / of_int (2 ^ 55)))
              / 2 ^ 49"
    by (rule round53_divide) simp_all
  also have "round_half_even (of_int (5179139571476070 * 100 * 2 ^ 49) / of_int (2 ^ 55))
               = 8092405580431359"
    by (subst round_half_even_divide) simp_all
  finally show ?thesis by simp
qed

lemma fixed2_14375: "fixed2 (8092405580431359 / 2 ^ 49) = ''14.37''"
proof -
  have "(8092405580431359 / 2 ^ 49 :: rat) * 100 + 1 / 2
          = of_int (8092405580431359 * 200 + 2 ^ 49) / of_int (2 ^ 50)"
    by simp
  then have "\<lfloor>(8092405580431359 / 2 ^ 49 :: rat) * 100 + 1 / 2\<rfloor>
               = (8092405580431359 * 200 + 2 ^ 49) div 2 ^ 50"
    by (simp only: floor_divide_of_int_eq)
  also have "\<dots> = 1437" by simp
  finally show ?thesis
    by (simp add: fixed2_def dec.simps digit_def)
qed

lemma count_list_replicate: "count_list (replicate n x) y = (if x = y then n else 0)"
  by (induction n) auto

lemma bounce_rate_tie:
  "calculateBounceRate (replicate 23 1 @ replicate 137 2) = ''14.37''
   \<and> spec_bounce_rate (replicate 23 1 @ replicate 137 2) = ''14.38''"
proof -
  have "js_div 23 160 = Fin (round53 (23 / 160))"
    by (simp add: js_div_def)
  then have "js_times (js_div 23 160) 100 = Fin (8092405580431359 / 2 ^ 49)"
    by (simp only: js_times.simps round53_23_160 round53_14375)
  moreover have "\<not> (8092405580431359 / 2 ^ 49 :: rat) < 0" by simp
  ultimately have "toFixed2 (js_times (js_div 23 160) 100) = ''14.37''"
    by (simp only: toFixed2.simps if_False fixed2_14375)
  then have "calculateBounceRate (replicate 23 1 @ replicate 137 2) = ''14.37''"
    by (simp add: calculateBounceRate_def)
  moreover have "spec_bounce_rate (replicate 23 1 @ replicate 137 2) = ''14.38''"
    by (simp add: spec_bounce_rate_def dec.simps digit_def count_list_replicate)
  ultimately show ?thesis by simp
qed

text \<open>
  The quotient of two counters printed by \<open>toFixed(2)\<close>: \<open>41 / 40\<close> is \<open>1.025\<close>, its double is
  below, and \<open>1.02\<close> is printed.
\<close>

lemma toFixed2_js_div_example: "toFixed2 (js_div 41 40) = ''1.02''"
proof -
  have "round53 (of_int 41 / of_int 40)
          = of_int (round_half_even (of_int (41 * 2 ^ 52) / of_int 40)) / 2 ^ 52"
    by (rule round53_divide) simp_all
  also have "round_half_even (of_int (41 * 2 ^ 52) / of_int 40) = 4616189618054758"
    by (subst round_half_even_divide) simp_all
  finally have r: "round53 (41 / 40) = 4616189618054758 / 2 ^ 52" by simp
  have "(4616189618054758 / 2 ^ 52 :: rat) * 100 + 1 / 2
          = of_int (4616189618054758 * 200 + 2 ^ 52) / of_int (2 ^ 53)"
    by simp
  then have "\<lfloor>(4616189618054758 / 2 ^ 52 :: rat) * 100 + 1 / 2\<rfloor>
               = (4616189618054758 * 200 + 2 ^ 52) div 2 ^ 53"
    by (simp only: floor_divide_of_int_eq)
  also have "\<dots> = 102" by simp
  finally have f: "fixed2 (4616189618054758 / 2 ^ 52) = ''1.02''"
    by (simp add: fixed2_def dec.simps digit_def)
  have "js_div 41 40 = Fin (round53 (41 / 40))"
    by (simp add: js_div_def)
  moreover have "\<not> (4616189618054758 / 2 ^ 52 :: rat) < 0" by simp
  ultimately show ?thesis
    by (simp only: r toFixed2.simps if_False f)
qed




lemma average_pages_example: "toFixed2 (average (map of_nat [2, 1])) = ''1.50''"
proof -
  have "round53 (of_int 3 * 2 powi (- 1)) = of_int 3 * 2 powi (- 1)"
    by (rule round53_dyadic) simp_all
  then have r: "round53 (3 / 2) = 3 / 2" by (simp add: power_int_minus_divide)
  have "average (map of_nat [2, 1]) = Fin (of_nat 3 / of_nat 2)"
    by (simp add: average_def round53_numeral r)
  moreover have "\<not> (of_nat 3 / of_nat 2 :: rat) < 0" by simp
  ultimately have "toFixed2 (average (map of_nat [2, 1])) = fixed2 (of_nat 3 / of_nat 2)"
    by (simp only: toFixed2.simps if_False)
  also have "\<dots> = ''1.50''"
    by (subst fixed2_ratio) (simp_all add: dec.simps digit_def)
  finally show ?thesis .
qed

lemma calculateSessions_threeVisits:
  "calculateSessions (AnalyticsReconstructor_new bf) md5 threeVisits =
     Inr \<lparr>Sessions.total = 2, avgDuration = Fin 300000, avgDurationFormatted = ''5m 0s'',
          avgPagesPerSession = ''1.50'', bounceRate = ''50.00''\<rparr>"
proof -
  have bounce: "calculateBounceRate [2, 1] = ''50.00''"
    by (subst calculateBounceRate_spec) (simp_all add: spec_bounce_rate_def dec.simps digit_def)
  have avg: "average (map of_int [600000, 0]) = Fin 300000"
    by (simp add: average_def round53_numeral)
  have s: "\<lfloor>round53 (300000 / 1000)\<rfloor> = 300"
    by (simp add: round53_numeral)
  have m: "\<lfloor>round53 (of_int 300 / 60)\<rfloor> = 5"
    by (simp add: round53_numeral)
  have h: "\<lfloor>round53 (of_int 5 / 60)\<rfloor> = 0"
    by (rule floor_round53_small) simp_all
  have fmt: "formatDuration (Fin 300000) = ''5m 0s''"
    unfolding formatDuration.simps Let_def s m h
    by (simp add: dec_int_def dec.simps digit_def)
  show ?thesis
    unfolding calculateSessions_def session_tally_threeVisits
    by (simp only: sum.case SessionTally.simps average_pages_example bounce avg fmt)
qed


lemma session_tally_shuffled:
  "session_tally (AnalyticsReconstructor_new bf) md5 threeVisits_shuffled =
     Inr \<lparr>totalSessions = 2, sessionDurations = [600000, 0], pagesPerSession = [2, 1]\<rparr>"
proof -
  have "list_all (\<lambda>e. fingerprint_of md5 e
            = createFingerprint md5 (JStr ''192.168.1.1'') (JStr chrome_ua)) threeVisits_shuffled"
    by (simp add: threeVisits_shuffled_def fingerprint_of_visit_at)
  then show ?thesis
    unfolding threeVisits_shuffled_def
    by (simp add: session_tally_one_visitor timestamp_visit_at timeout_new spec_tally_def)
qed

theorem session_reconstruction_witness:
  "\<forall>md5 :: string \<Rightarrow> string.
     (0 :: int) \<le> 0
     \<and> session_tally (AnalyticsReconstructor_new None) md5 [visit_at 5, visit_at 5] =
         Inr \<lparr>totalSessions = 1, sessionDurations = [0], pagesPerSession = [2]\<rparr>
     \<and> session_tally (AnalyticsReconstructor_new None) md5 [visit_at 0, visit_at 1800000] =
         Inr \<lparr>totalSessions = 1, sessionDurations = [1800000], pagesPerSession = [2]\<rparr>
     \<and> session_tally (AnalyticsReconstructor_new None) md5 [visit_at 0, visit_at 1800001] =
         Inr \<lparr>totalSessions = 2, sessionDurations = [0, 0], pagesPerSession = [1, 1]\<rparr>
     \<and> session_tally (AnalyticsReconstructor_new None) md5 threeVisits =
         Inr \<lparr>totalSessions = 2, sessionDurations = [600000, 0], pagesPerSession = [2, 1]\<rparr>
     \<and> session_tally (AnalyticsReconstructor_new None) md5 threeVisits_shuffled =
         Inr \<lparr>totalSessions = 2, sessionDurations = [600000, 0], pagesPerSession = [2, 1]\<rparr>
     \<and> calculateSessions (AnalyticsReconstructor_new None) md5 threeVisits =
         Inr \<lparr>Sessions.total = 2, avgDuration = Fin 300000, avgDurationFormatted = ''5m 0s'',
              avgPagesPerSession = ''1.50'', bounceRate = ''50.00''\<rparr>
     \<and> spec_sessions 1800000 (sort (map timestamp threeVisits_shuffled))
         = [[0, 600000], [2700000]]"
proof
  fix md5 :: "string \<Rightarrow> string"
  have upd: "(visit_at a)\<lparr>timestamp := b\<rparr> = visit_at b" for a b
    by (simp add: visit_at_def)
  have runs: "spec_sessions 1800000 (sort (map timestamp threeVisits_shuffled))
      = [[0, 600000], [2700000]]"
    by (simp add: threeVisits_shuffled_def timestamp_visit_at)
  note inst = session_reconstruction [where ?md5.0 = md5 and this = "AnalyticsReconstructor_new None"
      and bf = None and entries = "[]" and e = "visit_at 0"]
  from inst [where t = 5 and d = 0] inst [where t = 0 and d = 1800000]
    inst [where t = 0 and d = 1800001]
  show "(0 :: int) \<le> 0
     \<and> session_tally (AnalyticsReconstructor_new None) md5 [visit_at 5, visit_at 5] =
         Inr \<lparr>totalSessions = 1, sessionDurations = [0], pagesPerSession = [2]\<rparr>
     \<and> session_tally (AnalyticsReconstructor_new None) md5 [visit_at 0, visit_at 1800000] =
         Inr \<lparr>totalSessions = 1, sessionDurations = [1800000], pagesPerSession = [2]\<rparr>
     \<and> session_tally (AnalyticsReconstructor_new None) md5 [visit_at 0, visit_at 1800001] =
         Inr \<lparr>totalSessions = 2, sessionDurations = [0, 0], pagesPerSession = [1, 1]\<rparr>
     \<and> session_tally (AnalyticsReconstructor_new None) md5 threeVisits =
         Inr \<lparr>totalSessions = 2, sessionDurations = [600000, 0], pagesPerSession = [2, 1]\<rparr>
     \<and> session_tally (AnalyticsReconstructor_new None) md5 threeVisits_shuffled =
         Inr \<lparr>totalSessions = 2, sessionDurations = [600000, 0], pagesPerSession = [2, 1]\<rparr>
     \<and> calculateSessions (AnalyticsReconstructor_new None) md5 threeVisits =
         Inr \<lparr>Sessions.total = 2, avgDuration = Fin 300000, avgDurationFormatted = ''5m 0s'',
              avgPagesPerSession = ''1.50'', bounceRate = ''50.00''\<rparr>
     \<and> spec_sessions 1800000 (sort (map timestamp threeVisits_shuffled))
         = [[0, 600000], [2700000]]"
    by (simp add: upd timeout_new session_tally_shuffled calculateSessions_threeVisits runs)
qed

section \<open>Exceptions and the empty log\<close>

lemma detect_sessionEntry: "detect BotFilter_new sessionEntry = Inl TypeError"
proof -
  have "analyzeBehavior BotFilter_new empty_session = Inl TypeError"
    by (simp add: analyzeBehavior_def empty_session_def)
  then show ?thesis
    by (simp add: detect_def sessionEntry_def isBot_def isBot_behavior_def chrome_not_bot)
qed

text \<open>
  C4. For the log of one entry whose user agent is a browser's, whose \<open>ip\<close> is missing and
  whose \<open>session\<close> is the object \<open>{}\<close>, \<open>filterLogs\<close> and with it \<open>processLogs\<close> throw a
  \<open>TypeError\<close>: \<open>analyzeBehavior\<close> reads \<open>session.headers.acceptLanguage\<close>.
\<close>

theorem processLogs_throws:
  "\<forall>(md5 :: string \<Rightarrow> string) url_parser.
     filterLogs BotFilter_new [sessionEntry] = Inl TypeError
     \<and> processLogs (AnalyticsReconstructor_new (Some BotFilter_new)) md5 url_parser [sessionEntry]
         = Inl TypeError"
  by (simp add: processLogs_def filteredLogs_def AnalyticsReconstructor_new_def filterLogs_def
      detect_sessionEntry)

lemma fixed2_zero: "fixed2 0 = ''0.00''"
proof -
  have "fixed2 0 = fixed2 (of_nat 0 / of_nat 1)" by simp
  also have "\<dots> = ''0.00''"
    by (subst fixed2_ratio) (simp_all add: dec.simps digit_def)
  finally show ?thesis .
qed

lemma calculateSessions_empty:
  "calculateSessions this md5 [] =
     Inr \<lparr>Sessions.total = 0, avgDuration = Fin 0, avgDurationFormatted = ''0s'',
          avgPagesPerSession = ''0.00'', bounceRate = ''NaN''\<rparr>"
  by (simp add: calculateSessions_def session_tally_def visitorSessions_def average_def
      calculateBounceRate_def js_div_def fixed2_zero round53_zero dec_int_def dec.simps digit_def)

lemma calculateReferrers_empty:
  "calculateReferrers md5 url_parser [] = Inr \<lparr>Referrers.total = 0, top = [], all = []\<rparr>"
  by (simp add: calculateReferrers_def object_entries_def)

lemma calculateDevices_empty:
  "calculateDevices [] =
     Inr \<lparr>counts = \<lparr>mobile = 0, tablet = 0, desktop = 0, unknown = 0\<rparr>,
          percentages = \<lparr>mobile = ''NaN'', tablet = ''NaN'', desktop = ''NaN'', unknown = ''NaN''\<rparr>\<rparr>"
  by (simp add: calculateDevices_def js_div_def)

lemma filterLogs_empty:
  "filterLogs bf [] =
     Inr \<lparr>FilterResults.total = 0, legitimate = [], bots = [],
          stats = \<lparr>FilterStats.botPercentage = JStr ''NaN'', detectionMethods = []\<rparr>\<rparr>"
  by (simp add: filterLogs_def initial_results_def js_div_def)

text \<open>
  C5. On the empty log \<open>processLogs\<close> returns, with every count zero and the averages
  zero, and with \<open>overview.botPercentage\<close>, \<open>sessions.bounceRate\<close> and the four device
  percentages the string \<open>NaN\<close>.
\<close>

theorem processLogs_empty:
  "\<forall>(md5 :: string \<Rightarrow> string) url_parser.
     processLogs (AnalyticsReconstructor_new (Some BotFilter_new)) md5 url_parser [] =
       Inr \<lparr>overview = \<lparr>totalRequests = 0, totalBots = 0, botPercentage = JStr ''NaN''\<rparr>,
            sessions = \<lparr>Sessions.total = 0, avgDuration = Fin 0, avgDurationFormatted = ''0s'',
                        avgPagesPerSession = ''0.00'', bounceRate = ''NaN''\<rparr>,
            referrers = \<lparr>Referrers.total = 0, top = [], all = []\<rparr>,
            devices =
              \<lparr>counts = \<lparr>mobile = 0, tablet = 0, desktop = 0, unknown = 0\<rparr>,
               percentages = \<lparr>mobile = ''NaN'', tablet = ''NaN'', desktop = ''NaN'',
                              unknown = ''NaN''\<rparr>\<rparr>\<rparr>"
  by (simp add: processLogs_def filteredLogs_def AnalyticsReconstructor_new_def filterLogs_empty
      calculateSessions_empty calculateReferrers_empty calculateDevices_empty js_or_def)

section \<open>Referrers\<close>

lemma count_referrer_keys:
  "map fst (count_referrer h fp m) = (if h \<in> set (map fst m) then map fst m else map fst m @ [h])"
  by (induction m) (auto split: if_splits)

lemma count_referrer_map_of:
  "map_of (map (\<lambda>kv. (fst kv, fst (snd kv))) (count_referrer h fp m)) =
     (map_of (map (\<lambda>kv. (fst kv, fst (snd kv))) m))
       (h \<mapsto> (case map_of (map (\<lambda>kv. (fst kv, fst (snd kv))) m) h of
                None \<Rightarrow> 1 | Some n \<Rightarrow> n + 1))"
  by (induction m) (auto simp: fun_eq_iff)

lemma referrers_forEach_distinct:
  "referrers_forEach md5 up es m = Inr m' \<Longrightarrow> distinct (map fst m) \<Longrightarrow> distinct (map fst m')"
  by (induction es arbitrary: m) (auto simp: count_referrer_keys Let_def split: if_splits)

lemma referrers_forEach_counts:
  "referrers_forEach md5 up es m = Inr m' \<Longrightarrow>
     map_of (map (\<lambda>kv. (fst kv, fst (snd kv))) m') k =
       (case map_of (map (\<lambda>kv. (fst kv, fst (snd kv))) m) k of
          None \<Rightarrow> (case filter (\<lambda>e. referrer_key up e = k) es of
                     [] \<Rightarrow> None | xs \<Rightarrow> Some (length xs))
        | Some n \<Rightarrow> Some (n + length (filter (\<lambda>e. referrer_key up e = k) es)))"
proof (induction es arbitrary: m)
  case Nil
  then show ?case by (simp split: option.splits)
next
  case (Cons e es)
  from Cons.prems have ok: "referrer_key up e \<notin> set object_prototype_keys"
    and rest: "referrers_forEach md5 up es
        (count_referrer (referrer_key up e) (fingerprint_of md5 e) m) = Inr m'"
    by (auto simp: Let_def split: if_splits)
  show ?case
    unfolding Cons.IH [OF rest] count_referrer_map_of
    by (simp split: option.splits list.splits)
qed

lemma referrers_forEach_returns:
  "list_all (\<lambda>e. referrer_key up e \<notin> set object_prototype_keys) es \<Longrightarrow>
     \<exists>m'. referrers_forEach md5 up es m = Inr m'"
  by (induction es arbitrary: m) (simp_all add: Let_def)

lemma mset_object_entries: "mset (object_entries m) = mset m"
  by (simp add: object_entries_def)

lemma map_of_mset_eq:
  assumes "mset xs = mset ys" and "distinct (map fst ys)"
  shows "distinct (map fst xs)" and "map_of xs = map_of ys"
proof -
  have "mset (map fst xs) = mset (map fst ys)" using assms(1) by (metis mset_map)
  then show d: "distinct (map fst xs)"
    using assms(2) by (metis mset_eq_imp_distinct_iff)
  have "set xs = set ys" using assms(1) by (rule mset_eq_setD)
  with d assms(2) show "map_of xs = map_of ys"
    by (simp add: map_of_inject_set)
qed


lemma calculateReferrers_rows:
  assumes "referrers_forEach md5 up entries [] = Inr m"
  shows "calculateReferrers md5 up entries =
           Inr \<lparr>Referrers.total = length m,
                top = take 10 (sort_key (\<lambda>row. - int (visits row))
                        (map referrer_row (object_entries m))),
                all = sort_key (\<lambda>row. - int (visits row))
                        (map referrer_row (object_entries m))\<rparr>"
proof -
  have "length (object_entries m) = length m"
    using mset_object_entries [of m] by (metis size_mset)
  then show ?thesis
    by (simp add: calculateReferrers_def assms Let_def)
qed

lemma rows_counts:
  assumes "referrers_forEach md5 up entries [] = Inr m"
  defines "rows \<equiv> sort_key (\<lambda>row. - int (visits row)) (map referrer_row (object_entries m))"
  shows "distinct (map ReferrerRow.referrer rows)"
    and "map_of (map (\<lambda>row. (ReferrerRow.referrer row, visits row)) rows) k =
           (case filter (\<lambda>e. referrer_key up e = k) entries of
              [] \<Rightarrow> None | xs \<Rightarrow> Some (length xs))"
proof -
  let ?cnt = "\<lambda>kv :: string \<times> nat \<times> 'a list. (fst kv, fst (snd kv))"
  let ?pair = "\<lambda>row. (ReferrerRow.referrer row, visits row)"
  have pr: "?pair (referrer_row kv) = ?cnt kv" for kv
    by (simp add: referrer_row_def)
  have "mset (map ?pair rows) = image_mset ?pair (image_mset referrer_row (mset (object_entries m)))"
    by (simp add: rows_def)
  also have "\<dots> = mset (map ?cnt m)"
    by (simp add: mset_object_entries multiset.map_comp comp_def pr)
  finally have ms: "mset (map ?pair rows) = mset (map ?cnt m)" .
  have dm: "distinct (map fst (map ?cnt m))"
    using referrers_forEach_distinct [OF assms(1)] by (simp add: comp_def)
  from map_of_mset_eq [OF ms dm]
  have d: "distinct (map fst (map ?pair rows))" and mo: "map_of (map ?pair rows) = map_of (map ?cnt m)"
    by simp_all
  from d show "distinct (map ReferrerRow.referrer rows)" by (simp add: comp_def)
  show "map_of (map ?pair rows) k =
           (case filter (\<lambda>e. referrer_key up e = k) entries of
              [] \<Rightarrow> None | xs \<Rightarrow> Some (length xs))"
    unfolding mo using referrers_forEach_counts [OF assms(1), of k] by simp
qed

lemma no_scheme_unparseable: "\<not> has_scheme s \<Longrightarrow> URL_hostname up s = None"
  by (simp add: URL_hostname_def)

lemma referrer_key_cases:
  "\<not> truthy (referer e) \<Longrightarrow> \<not> truthy (referrer e) \<Longrightarrow> referrer_key up e = ''Direct''"
  "truthy (js_or (referer e) (referrer e)) \<Longrightarrow> js_or (referer e) (referrer e) \<noteq> JStr ''Direct'' \<Longrightarrow>
     URL_hostname up (ToString (js_or (referer e) (referrer e))) = Some h \<Longrightarrow> referrer_key up e = h"
  "truthy (js_or (referer e) (referrer e)) \<Longrightarrow>
     URL_hostname up (ToString (js_or (referer e) (referrer e))) = None \<Longrightarrow>
     referrer_key up e = ToString (js_or (referer e) (referrer e))"
  by (auto simp: referrer_key_def extractHostname_def js_or_def)

text \<open>
  C8, as the code has it. An entry is counted under \<open>Direct\<close> when its \<open>referer\<close> and
  \<open>referrer\<close> are both missing or falsy; under the hostname of its referer when the
  referer parses as a URL; and under the referer string itself when the referer does
  not parse as a URL, as every string without a scheme. When no key names a member of
  \<open>Object.prototype\<close>, \<open>_calculateReferrers\<close> returns one row per key, and the visits of the
  row of a key are the number of entries counted under it.
\<close>

theorem referrers_buckets:
  "(\<not> truthy (referer e) \<and> \<not> truthy (referrer e) \<longrightarrow> referrer_key up e = ''Direct'')
   \<and> (truthy (js_or (referer e) (referrer e))
        \<and> js_or (referer e) (referrer e) \<noteq> JStr ''Direct''
        \<and> URL_hostname up (ToString (js_or (referer e) (referrer e))) = Some h
        \<longrightarrow> referrer_key up e = h)
   \<and> (truthy (js_or (referer e) (referrer e))
        \<and> URL_hostname up (ToString (js_or (referer e) (referrer e))) = None
        \<longrightarrow> referrer_key up e = ToString (js_or (referer e) (referrer e)))
   \<and> (\<not> has_scheme s \<longrightarrow> URL_hostname up s = None)
   \<and> (list_all (\<lambda>x. referrer_key up x \<notin> set object_prototype_keys) entries \<longrightarrow>
        (\<exists>r. calculateReferrers md5 up entries = Inr r
           \<and> Referrers.total r = length (all r)
           \<and> distinct (map ReferrerRow.referrer (all r))
           \<and> map_of (map (\<lambda>row. (ReferrerRow.referrer row, visits row)) (all r)) k =
               (case filter (\<lambda>x. referrer_key up x = k) entries of
                  [] \<Rightarrow> None
                | xs \<Rightarrow> Some (length xs))))"
proof -
  have agg: "\<exists>r. calculateReferrers md5 up entries = Inr r
           \<and> Referrers.total r = length (all r)
           \<and> distinct (map ReferrerRow.referrer (all r))
           \<and> map_of (map (\<lambda>row. (ReferrerRow.referrer row, visits row)) (all r)) k =
               (case filter (\<lambda>x. referrer_key up x = k) entries of
                  [] \<Rightarrow> None
                | xs \<Rightarrow> Some (length xs))"
    if "list_all (\<lambda>x. referrer_key up x \<notin> set object_prototype_keys) entries"
  proof -
    from referrers_forEach_returns [OF that] obtain m
      where m: "referrers_forEach md5 up entries [] = Inr m" by blast
    have len: "length (object_entries m) = length m"
      using mset_object_entries [of m] by (metis size_mset)
    show ?thesis
      unfolding calculateReferrers_rows [OF m]
      using rows_counts(1) [OF m] rows_counts(2) [OF m, where k = k] len by simp
  qed
  show ?thesis
    by (intro conjI impI, (elim conjE)?, erule (1) referrer_key_cases(1),
        (elim conjE)?, erule (2) referrer_key_cases(2),
        (elim conjE)?, erule (1) referrer_key_cases(3),
        erule no_scheme_unparseable, erule agg)
qed

lemma has_scheme_examples:
  "\<not> has_scheme ''/''" "has_scheme ''https://google.com''"
  by (simp_all add: has_scheme_def is_alpha_def is_scheme_char_def is_digit_def)

lemma referrer_keys_testLogs:
  "map (referrer_key google_only) testLogs = [''google.com'', ''/'', ''Direct'']"
  by (simp add: testLogs_def referrer_key_def extractHostname_def js_or_def URL_hostname_def
      has_scheme_examples google_only_def)

lemma slash_key: "referrer_key up (testLogs ! 1) = ''/''"
  by (simp add: testLogs_def referrer_key_def extractHostname_def js_or_def URL_hostname_def
      has_scheme_examples)

lemma slash_not_index: "\<not> is_array_index ''/''"
  by (simp add: is_array_index_def is_digit_def)

text \<open>
  A referer that names a member of \<open>Object.prototype\<close>: \<open>referrers[hostname]\<close> finds the
  inherited member, no entry is created, and \<open>uniqueVisitors.add\<close> throws.
\<close>

lemma referrers_prototype_key:
  "calculateReferrers md5 url_parser [(visit_at 0)\<lparr>referer := JStr ''constructor''\<rparr>]
     = Inl TypeError"
proof -
  have "\<not> has_scheme ''constructor''"
    by (simp add: has_scheme_def is_alpha_def is_scheme_char_def is_digit_def)
  then have "referrer_key url_parser ((visit_at 0)\<lparr>referer := JStr ''constructor''\<rparr>)
               = ''constructor''"
    by (simp add: referrer_key_def extractHostname_def js_or_def URL_hostname_def visit_at_def)
  then show ?thesis
    unfolding calculateReferrers_def referrers_forEach.simps Let_def
    by (simp add: object_prototype_keys_def)
qed

theorem referrers_unparseable_counterexample:
  "\<forall>(md5 :: string \<Rightarrow> string) url_parser.
     referer (testLogs ! 1) = JStr ''/''
     \<and> URL_hostname url_parser ''/'' = None
     \<and> calculateReferrers md5 url_parser [testLogs ! 1] =
         Inr \<lparr>Referrers.total = 1,
              top = [\<lparr>ReferrerRow.referrer = ''/'', visits = 1, uniqueVisitors = 1\<rparr>],
              all = [\<lparr>ReferrerRow.referrer = ''/'', visits = 1, uniqueVisitors = 1\<rparr>]\<rparr>"
proof (intro allI conjI)
  fix md5 :: "string \<Rightarrow> string" and url_parser :: "string \<Rightarrow> string option"
  show "referer (testLogs ! 1) = JStr ''/''" by (simp add: testLogs_def)
  show "URL_hostname url_parser ''/'' = None"
    by (simp add: URL_hostname_def has_scheme_examples)
  show "calculateReferrers md5 url_parser [testLogs ! 1] =
         Inr \<lparr>Referrers.total = 1,
              top = [\<lparr>ReferrerRow.referrer = ''/'', visits = 1, uniqueVisitors = 1\<rparr>],
              all = [\<lparr>ReferrerRow.referrer = ''/'', visits = 1, uniqueVisitors = 1\<rparr>]\<rparr>"
    unfolding calculateReferrers_def referrers_forEach.simps Let_def slash_key
    by (simp add: object_prototype_keys_def object_entries_def slash_not_index referrer_row_def)
qed

theorem referrers_buckets_witness:
  "map (referrer_key google_only) testLogs = [''google.com'', ''/'', ''Direct'']
   \<and> list_all (\<lambda>x. referrer_key google_only x \<notin> set object_prototype_keys) testLogs
   \<and> (\<exists>r. calculateReferrers (\<lambda>s. s) google_only testLogs = Inr r
         \<and> Referrers.total r = length (all r)
         \<and> distinct (map ReferrerRow.referrer (all r))
         \<and> map_of (map (\<lambda>row. (ReferrerRow.referrer row, visits row)) (all r)) ''/'' = Some 1)"
proof -
  have keys: "map (referrer_key google_only) testLogs = [''google.com'', ''/'', ''Direct'']"
    by (rule referrer_keys_testLogs)
  have "list_all (\<lambda>k. k \<notin> set object_prototype_keys) (map (referrer_key google_only) testLogs)"
    unfolding keys by (simp add: object_prototype_keys_def)
  then have ok: "list_all (\<lambda>x. referrer_key google_only x \<notin> set object_prototype_keys) testLogs"
    by (simp add: list_all_iff)
  have "length (filter (\<lambda>x. referrer_key google_only x = ''/'') testLogs)
          = length (filter (\<lambda>k. k = ''/'') (map (referrer_key google_only) testLogs))"
    by (simp add: filter_map comp_def)
  also have "\<dots> = 1"
    unfolding keys by simp
  finally have one: "length (filter (\<lambda>x. referrer_key google_only x = ''/'') testLogs) = 1" .
  from referrers_buckets [where up = google_only and ?md5.0 = "\<lambda>s. s" and entries = testLogs
      and k = "''/''", THEN conjunct2, THEN conjunct2, THEN conjunct2, THEN conjunct2]
  have "list_all (\<lambda>x. referrer_key google_only x \<notin> set object_prototype_keys) testLogs \<longrightarrow>
        (\<exists>r. calculateReferrers (\<lambda>s. s) google_only testLogs = Inr r
           \<and> Referrers.total r = length (all r)
           \<and> distinct (map ReferrerRow.referrer (all r))
           \<and> map_of (map (\<lambda>row. (ReferrerRow.referrer row, visits row)) (all r)) ''/'' =
               (case filter (\<lambda>x. referrer_key google_only x = ''/'') testLogs of
                  [] \<Rightarrow> None
                | xs \<Rightarrow> Some (length xs)))" .
  with ok obtain r where r: "calculateReferrers (\<lambda>s. s) google_only testLogs = Inr r"
      "Referrers.total r = length (all r)" "distinct (map ReferrerRow.referrer (all r))"
      "map_of (map (\<lambda>row. (ReferrerRow.referrer row, visits row)) (all r)) ''/'' =
         (case filter (\<lambda>x. referrer_key google_only x = ''/'') testLogs of
            [] \<Rightarrow> None | xs \<Rightarrow> Some (length xs))"
    by (elim impE exE conjE) assumption
  from one r(4) have four: "map_of (map (\<lambda>row. (ReferrerRow.referrer row, visits row)) (all r)) ''/'' = Some 1"
    by (cases "filter (\<lambda>x. referrer_key google_only x = ''/'') testLogs") simp_all
  show ?thesis
    by (intro conjI exI [of _ r], rule keys, rule ok, rule r(1), rule r(2), rule r(3), rule four)
qed

end
